theory Spec2Isabelle
  imports Main "HOL-Library.AList"
begin

section \<open>Data model\<close>

text \<open>
  The engine of \<^verbatim>\<open>utils/graphColoring\<close> works on JavaScript objects that are shared by
  reference: a \<^verbatim>\<open>Map<string, Course>\<close> holds references to \<^verbatim>\<open>Course\<close> objects, and the
  colorers write the \<^verbatim>\<open>slot\<close> and \<^verbatim>\<open>color\<close> fields of those objects. The model therefore
  has an explicit store of \<^verbatim>\<open>Course\<close> objects. A reference is an index into the store and
  a fresh object is appended at the end.

  A JavaScript \<^verbatim>\<open>Map\<close> is an association list in insertion order with distinct keys, a
  JavaScript \<^verbatim>\<open>Set\<close> is a list in insertion order without repetition. Strings are
  \<^typ>\<open>string\<close>; slot numbers are natural numbers. The field
  \<^verbatim>\<open>averageConflictsPerCourse\<close> is a floating point number and is left out of the
  result record, as is the output of \<^verbatim>\<open>console.log\<close>. The optional student list of
  the colorers is a list; a caller without students passes the empty list, which is what
  \<^verbatim>\<open>students || []\<close> returns.
\<close>

type_synonym ref = nat

record Course =
  name :: string
  conflicts :: "string list"
  slot :: "nat option"
  color :: "string option"

record Student =
  student_id :: string
  student_courses :: "string list"

type_synonym heap = "Course list"

type_synonym course_map = "(string \<times> ref) list"

type_synonym slot_map = "(nat \<times> string list) list"

record conflict_details =
  totalPairs :: nat
  conflictPairsList :: "string list list"

record ScheduleResult =
  courses :: course_map
  slots :: slot_map
  totalSlots :: nat
  totalConflicts :: nat
  students :: "Student list"
  conflictDetails :: conflict_details

datatype js_error = TypeError

datatype console_error = CriticalError

definition SLOT_COLORS :: "string list" where
  "SLOT_COLORS =
    [''#3B82F6'', ''#10B981'', ''#F59E0B'', ''#EF4444'', ''#8B5CF6'',
     ''#06B6D4'', ''#F97316'', ''#84CC16'', ''#EC4899'', ''#6366F1'',
     ''#F59E0B'', ''#10B981'', ''#8B5CF6'', ''#06B6D4'', ''#F97316'']"

subsection \<open>Library operations of the host language\<close>

text \<open>\<^verbatim>\<open>Set.prototype.add\<close>: a new element goes to the end, a present one changes nothing.\<close>

definition set_add :: "'a list \<Rightarrow> 'a \<Rightarrow> 'a list" where
  "set_add xs x = (if x \<in> set xs then xs else xs @ [x])"

text \<open>
  \<^verbatim>\<open>Map.prototype.set\<close> is \<^const>\<open>AList.update\<close> (a present key keeps its position),
  \<^verbatim>\<open>Map.prototype.get\<close> is \<^const>\<open>map_of\<close>.
\<close>

text \<open>\<^verbatim>\<open>String.prototype.trim\<close> on the white space of the 8-bit range.\<close>

definition is_space :: "char \<Rightarrow> bool" where
  "is_space c = (of_char c \<in> {9::nat, 10, 11, 12, 13, 32, 160})"

definition trim :: "string \<Rightarrow> string" where
  "trim s = rev (dropWhile is_space (rev (dropWhile is_space s)))"

text \<open>
  A loop over a list whose body may throw: the first error ends the loop, and the state
  reached before the failing iteration is kept with the error.
\<close>

fun forEach :: "('a \<Rightarrow> 's \<Rightarrow> 'e + 's) \<Rightarrow> 'a list \<Rightarrow> 's \<Rightarrow> ('e \<times> 's) + 's" where
  "forEach f [] s = Inr s"
| "forEach f (x # xs) s = (case f x s of Inl e \<Rightarrow> Inl (e, s) | Inr s' \<Rightarrow> forEach f xs s')"

text \<open>
  \<^verbatim>\<open>Array.prototype.sort\<close> with a comparator is stable; it is modelled by stable insertion,
  where \<^verbatim>\<open>cmp a b \<le> 0\<close> keeps \<^verbatim>\<open>a\<close> in front of \<^verbatim>\<open>b\<close>. For a comparator that is a
  consistent ordering every stable sort returns this list.
\<close>

fun insert_by :: "('a \<Rightarrow> 'a \<Rightarrow> int) \<Rightarrow> 'a \<Rightarrow> 'a list \<Rightarrow> 'a list" where
  "insert_by cmp x [] = [x]"
| "insert_by cmp x (y # ys) = (if cmp x y \<le> 0 then x # y # ys else y # insert_by cmp x ys)"

definition sort_by :: "('a \<Rightarrow> 'a \<Rightarrow> int) \<Rightarrow> 'a list \<Rightarrow> 'a list" where
  "sort_by cmp xs = foldr (insert_by cmp) xs []"

text \<open>
  The index pairs \<^verbatim>\<open>i < j\<close> of the nested loops
  \<^verbatim>\<open>for (i = 0; ...) for (j = i + 1; ...)\<close>, in the order the loops visit them.
\<close>

fun pairs :: "'a list \<Rightarrow> ('a \<times> 'a) list" where
  "pairs [] = []"
| "pairs (x # xs) = map (Pair x) xs @ pairs xs"

section \<open>Conflict graph builder\<close>

text \<open>
  Lines 94 to 100: every non-empty trimmed name of the course universe gets a fresh
  \<^verbatim>\<open>Course\<close> object with an empty conflict set.
\<close>

definition add_course :: "string \<Rightarrow> heap \<times> course_map \<times> string list \<Rightarrow> heap \<times> course_map \<times> string list" where
  "add_course nm st =
    (case st of (h, cs, validCourses) \<Rightarrow>
      if nm \<noteq> [] \<and> trim nm \<noteq> [] then
        (let courseName = trim nm in
          (h @ [\<lparr>name = courseName, conflicts = [], slot = None, color = None\<rparr>],
           AList.update courseName (length h) cs,
           set_add validCourses courseName))
      else (h, cs, validCourses))"

text \<open>\<^verbatim>\<open>courses.get(c1)!.conflicts.add(c2)\<close>: a missing course is a \<^verbatim>\<open>TypeError\<close>.\<close>

definition add_conflict :: "course_map \<Rightarrow> string \<Rightarrow> string \<Rightarrow> heap \<Rightarrow> js_error + heap" where
  "add_conflict cs c1 c2 h =
    (case map_of cs c1 of
       None \<Rightarrow> Inl TypeError
     | Some r \<Rightarrow> Inr (h[r := (h ! r)\<lparr>conflicts := set_add (conflicts (h ! r)) c2\<rparr>]))"

text \<open>Lines 118 to 122, the body of the inner loop.\<close>

definition add_pair :: "course_map \<Rightarrow> string \<times> string \<Rightarrow> heap \<Rightarrow> js_error + heap" where
  "add_pair cs p h =
    (case p of (course1, course2) \<Rightarrow>
      (case add_conflict cs course1 course2 h of
         Inl e \<Rightarrow> Inl e
       | Inr h' \<Rightarrow> add_conflict cs course2 course1 h'))"

text \<open>Lines 109 to 112.\<close>

definition studentValidCourses :: "string list \<Rightarrow> Student \<Rightarrow> string list" where
  "studentValidCourses validCourses student =
    filter (\<lambda>course. course \<in> set validCourses)
      (map trim (filter (\<lambda>course. course \<noteq> [] \<and> trim course \<noteq> []) (student_courses student)))"

text \<open>Lines 106 to 126, the body of the loop over the students.\<close>

definition add_student :: "course_map \<Rightarrow> string list \<Rightarrow> Student \<Rightarrow> heap \<Rightarrow> js_error + heap" where
  "add_student cs validCourses student h =
    (let svc = studentValidCourses validCourses student in
      if length svc > 1 then
        (case forEach (add_pair cs) (pairs svc) h of Inl (e, _) \<Rightarrow> Inl e | Inr h' \<Rightarrow> Inr h')
      else Inr h)"

definition buildConflictGraph :: "heap \<Rightarrow> Student list \<Rightarrow> string list \<Rightarrow> js_error + heap \<times> course_map" where
  "buildConflictGraph h studs courseNames =
    (case fold add_course courseNames (h, [], []) of (h1, cs, validCourses) \<Rightarrow>
      (case forEach (add_student cs validCourses) studs h1 of
         Inl (e, _) \<Rightarrow> Inl e
       | Inr h2 \<Rightarrow> Inr (h2, cs)))"

section \<open>Greedy colorer\<close>

text \<open>
  \<^verbatim>\<open>String.prototype.localeCompare\<close> belongs to the host and is a parameter \<open>lc\<close> of both
  colorers. The default \<^verbatim>\<open>Array.prototype.sort\<close> of line 205 compares strings by their
  code units.
\<close>

fun js_less :: "string \<Rightarrow> string \<Rightarrow> bool" where
  "js_less [] [] = False"
| "js_less [] (y # ys) = True"
| "js_less (x # xs) [] = False"
| "js_less (x # xs) (y # ys) =
    (if (of_char x :: nat) < of_char y then True
     else if (of_char y :: nat) < of_char x then False
     else js_less xs ys)"

text \<open>\<^verbatim>\<open>[a, b].sort().join('|')\<close>\<close>

definition pair_key :: "string \<Rightarrow> string \<Rightarrow> string" where
  "pair_key a b = (if js_less b a then b @ ''|'' @ a else a @ ''|'' @ b)"

text \<open>\<^verbatim>\<open>pair.split('|')\<close>\<close>

fun split_on :: "char \<Rightarrow> string \<Rightarrow> string list" where
  "split_on c [] = [[]]"
| "split_on c (x # xs) =
    (if x = c then [] # split_on c xs
     else (case split_on c xs of [] \<Rightarrow> [[x]] | w # ws \<Rightarrow> (x # w) # ws))"

text \<open>Lines 202 to 208 and 401 to 407: the set of pair keys.\<close>

definition conflict_pairs :: "heap \<Rightarrow> ref list \<Rightarrow> string list" where
  "conflict_pairs h courseList =
    fold (\<lambda>r cp. fold (\<lambda>conflictCourse cp'. set_add cp' (pair_key (name (h ! r)) conflictCourse))
                   (conflicts (h ! r)) cp)
      courseList []"

text \<open>Lines 181 to 184.\<close>

definition reset_course :: "ref \<Rightarrow> heap \<Rightarrow> heap" where
  "reset_course r h = h[r := (h ! r)\<lparr>slot := None, color := None\<rparr>]"

text \<open>The comparator of lines 187 to 194.\<close>

definition greedy_cmp :: "(string \<Rightarrow> string \<Rightarrow> int) \<Rightarrow> heap \<Rightarrow> ref \<Rightarrow> ref \<Rightarrow> int" where
  "greedy_cmp lc h a b =
    (if length (conflicts (h ! b)) \<noteq> length (conflicts (h ! a))
     then int (length (conflicts (h ! b))) - int (length (conflicts (h ! a)))
     else lc (name (h ! a)) (name (h ! b)))"

text \<open>Lines 230 to 242: does the slot hold a course of the conflict set?\<close>

definition has_conflict :: "string list \<Rightarrow> slot_map \<Rightarrow> nat \<Rightarrow> bool" where
  "has_conflict cfl sl s =
    (case map_of sl s of
       None \<Rightarrow> False
     | Some coursesInSlot \<Rightarrow> list_ex (\<lambda>existingCourse. existingCourse \<in> set cfl) coursesInSlot)"

lemma has_conflict_key: "has_conflict cfl sl s \<Longrightarrow> s \<le> sum_list (map fst sl)"
proof -
  assume "has_conflict cfl sl s"
  then obtain ns where "map_of sl s = Some ns"
    by (auto simp: has_conflict_def split: option.splits)
  then have "s \<in> set (map fst sl)"
    by (force dest: map_of_SomeD)
  then show ?thesis
    by (simp add: member_le_sum_list)
qed

text \<open>The loop \<^verbatim>\<open>while (!assigned)\<close> of lines 229 to 265 returns the slot it stops at.\<close>

function find_slot :: "string list \<Rightarrow> slot_map \<Rightarrow> nat \<Rightarrow> nat" where
  "find_slot cfl sl s = (if has_conflict cfl sl s then find_slot cfl sl (Suc s) else s)"
  by pat_completeness auto
termination
  by (relation "measure (\<lambda>(cfl, sl, s). Suc (sum_list (map fst sl)) - s)")
     (auto dest: has_conflict_key)

text \<open>
  \<^verbatim>\<open>SLOT_COLORS[(slot - 1) % SLOT_COLORS.length]\<close>; at slot 0 the index is negative and
  the read is \<^verbatim>\<open>undefined\<close>.
\<close>

definition slot_color :: "nat \<Rightarrow> string option" where
  "slot_color s = (if s = 0 then None else Some (SLOT_COLORS ! ((s - 1) mod length SLOT_COLORS)))"

text \<open>
  Lines 252 to 255 and 396 to 397: a slot that is not yet a key enters the map with an
  empty list, then the name is pushed to the slot's list.
\<close>

definition slot_push :: "slot_map \<Rightarrow> nat \<Rightarrow> string \<Rightarrow> slot_map" where
  "slot_push sl s nm =
    (case map_of sl s of
       None \<Rightarrow> AList.update s [nm] sl
     | Some ns \<Rightarrow> AList.update s (ns @ [nm]) sl)"

text \<open>Lines 222 to 266, the body of the loop over the sorted courses.\<close>

definition assign_course :: "ref \<Rightarrow> heap \<times> slot_map \<Rightarrow> heap \<times> slot_map" where
  "assign_course r st =
    (case st of (h, sl) \<Rightarrow>
      (let course = h ! r; s = find_slot (conflicts course) sl 1 in
        (h[r := course\<lparr>slot := Some s, color := slot_color s\<rparr>], slot_push sl s (name course))))"

section \<open>Solution verifier\<close>

text \<open>\<^verbatim>\<open>courses.get(a)?.conflicts.has(b)\<close>, where a missing course gives a falsy value.\<close>

definition conflicts_has :: "heap \<Rightarrow> course_map \<Rightarrow> string \<Rightarrow> string \<Rightarrow> bool" where
  "conflicts_has h cs a b =
    (case map_of cs a of None \<Rightarrow> False | Some r \<Rightarrow> b \<in> set (conflicts (h ! r)))"

definition verifySolution :: "heap \<Rightarrow> course_map \<Rightarrow> slot_map \<Rightarrow> bool" where
  "verifySolution h cs sl =
    list_all (\<lambda>(s, courseNames).
      list_all (\<lambda>(ci, cj). \<not> (conflicts_has h cs ci cj \<or> conflicts_has h cs cj ci))
        (pairs courseNames)) sl"

definition greedyColoring ::
  "(string \<Rightarrow> string \<Rightarrow> int) \<Rightarrow> heap \<Rightarrow> course_map \<Rightarrow> Student list
    \<Rightarrow> heap \<times> console_error list \<times> ScheduleResult" where
  "greedyColoring lc h cs studs =
    (let courseList = map snd cs in
      if length courseList = 0 then
        (h, [], \<lparr>courses = cs, slots = [], totalSlots = 0, totalConflicts = 0, students = studs,
                 conflictDetails = \<lparr>totalPairs = 0, conflictPairsList = []\<rparr>\<rparr>)
      else
        (let h1 = fold reset_course courseList h;
             sorted = sort_by (greedy_cmp lc h1) courseList;
             conflictPairs = conflict_pairs h1 sorted;
             total = length conflictPairs;
             (h2, sl) = fold assign_course sorted (h1, []);
             isValidSolution = verifySolution h2 cs sl
         in (h2,
             (if \<not> isValidSolution then [CriticalError] else []),
             \<lparr>courses = cs, slots = sl, totalSlots = length sl, totalConflicts = total,
              students = studs,
              conflictDetails =
                \<lparr>totalPairs = total,
                 conflictPairsList = map (split_on CHR ''|'') conflictPairs\<rparr>\<rparr>)))"

section \<open>DSATUR colorer\<close>

text \<open>
  Lines 319 to 322: every entry of the caller's map is copied into a fresh object, with
  its own conflict set and with \<^verbatim>\<open>slot\<close> and \<^verbatim>\<open>color\<close> unset.
\<close>

definition copy_course :: "string \<times> ref \<Rightarrow> heap \<times> course_map \<Rightarrow> heap \<times> course_map" where
  "copy_course e st =
    (case e of (nm, r) \<Rightarrow> (case st of (h, cs) \<Rightarrow>
      (h @ [\<lparr>name = name (h ! r), conflicts = conflicts (h ! r), slot = None, color = None\<rparr>],
       AList.update nm (length h) cs)))"

type_synonym color_map = "(string \<times> nat option) list"

type_synonym saturation_map = "(string \<times> nat list) list"

type_synonym degree_map = "(string \<times> nat) list"

text \<open>Lines 345 to 349.\<close>

definition init_maps ::
  "heap \<Rightarrow> course_map \<Rightarrow> string
    \<Rightarrow> color_map \<times> saturation_map \<times> degree_map
    \<Rightarrow> js_error + color_map \<times> saturation_map \<times> degree_map" where
  "init_maps h cs nm st =
    (case st of (colorAssignment, saturation, degree) \<Rightarrow>
      (case map_of cs nm of
         None \<Rightarrow> Inl TypeError
       | Some r \<Rightarrow>
           Inr (AList.update nm None colorAssignment,
                AList.update nm [] saturation,
                AList.update nm (length (conflicts (h ! r))) degree)))"

text \<open>\<^verbatim>\<open>colorAssignment.get(nm)\<close>, where \<open>None\<close> stands for \<^verbatim>\<open>undefined\<close>.\<close>

definition color_of :: "color_map \<Rightarrow> string \<Rightarrow> nat option" where
  "color_of colorAssignment nm = (case map_of colorAssignment nm of None \<Rightarrow> None | Some c \<Rightarrow> c)"

text \<open>Line 352.\<close>

definition uncolored :: "color_map \<Rightarrow> string list \<Rightarrow> string list" where
  "uncolored colorAssignment courseNames = filter (\<lambda>nm. color_of colorAssignment nm = None) courseNames"

text \<open>The comparator of lines 358 to 367.\<close>

definition dsatur_cmp ::
  "(string \<Rightarrow> string \<Rightarrow> int) \<Rightarrow> saturation_map \<Rightarrow> degree_map \<Rightarrow> string \<Rightarrow> string \<Rightarrow> int" where
  "dsatur_cmp lc saturation degree a b =
    (let sa = (case map_of saturation a of None \<Rightarrow> 0 | Some st \<Rightarrow> length st);
         sb = (case map_of saturation b of None \<Rightarrow> 0 | Some st \<Rightarrow> length st) in
      if sb \<noteq> sa then int sb - int sa
      else
        (let da = (case map_of degree a of None \<Rightarrow> 0 | Some d \<Rightarrow> d);
             db = (case map_of degree b of None \<Rightarrow> 0 | Some d \<Rightarrow> d) in
          if db \<noteq> da then int db - int da else lc a b))"

text \<open>Lines 371 to 376.\<close>

definition neighbor_colors :: "color_map \<Rightarrow> string list \<Rightarrow> nat list" where
  "neighbor_colors colorAssignment cfl =
    fold (\<lambda>nb ncs. case color_of colorAssignment nb of None \<Rightarrow> ncs | Some c \<Rightarrow> set_add ncs c) cfl []"

text \<open>Lines 378 and 379: \<^verbatim>\<open>while (neighborColors.has(color)) color++\<close>.\<close>

function first_free :: "nat list \<Rightarrow> nat \<Rightarrow> nat" where
  "first_free used c = (if c \<in> set used then first_free used (Suc c) else c)"
  by pat_completeness auto
termination
  by (relation "measure (\<lambda>(used, c). Suc (sum_list used) - c)")
     (auto dest: member_le_sum_list)

text \<open>Lines 383 to 386: a neighbour without a saturation set is a \<^verbatim>\<open>TypeError\<close>.\<close>

definition saturate :: "nat \<Rightarrow> string \<Rightarrow> saturation_map \<Rightarrow> js_error + saturation_map" where
  "saturate c nb saturation =
    (case map_of saturation nb of
       None \<Rightarrow> Inl TypeError
     | Some nbSet \<Rightarrow> Inr (AList.update nb (set_add nbSet c) saturation))"

text \<open>Lines 358 to 386, one round of the loop on the candidates of line 355.\<close>

definition dsatur_step ::
  "(string \<Rightarrow> string \<Rightarrow> int) \<Rightarrow> heap \<Rightarrow> course_map \<Rightarrow> degree_map \<Rightarrow> string list
    \<Rightarrow> color_map \<times> saturation_map \<Rightarrow> js_error + color_map \<times> saturation_map" where
  "dsatur_step lc h cs degree candidates st =
    (case st of (colorAssignment, saturation) \<Rightarrow>
      (case sort_by (dsatur_cmp lc saturation degree) candidates of
         [] \<Rightarrow> Inl TypeError
       | v # _ \<Rightarrow>
          (case map_of cs v of
             None \<Rightarrow> Inl TypeError
           | Some r \<Rightarrow>
              (let cfl = conflicts (h ! r);
                   neighborColors = neighbor_colors colorAssignment cfl;
                   c = first_free neighborColors 1;
                   colorAssignment' = AList.update v (Some c) colorAssignment
               in (case forEach (saturate c) cfl saturation of
                     Inl (e, _) \<Rightarrow> Inl e
                   | Inr saturation' \<Rightarrow> Inr (colorAssignment', saturation'))))))"

lemma set_insert_by: "set (insert_by cmp x xs) = insert x (set xs)"
  by (induction xs) auto

lemma set_sort_by: "set (sort_by cmp xs) = set xs"
  by (induction xs) (simp_all add: sort_by_def set_insert_by)

lemma color_of_update:
  "color_of (AList.update v c ca) nm = (if nm = v then c else color_of ca nm)"
  by (simp add: color_of_def update_conv')

lemma dsatur_step_colors:
  assumes "dsatur_step lc h cs degree candidates (ca, sat) = Inr (ca', sat')"
  shows "\<exists>v c. v \<in> set candidates \<and> ca' = AList.update v (Some c) ca"
proof -
  obtain v vs where sv: "sort_by (dsatur_cmp lc sat degree) candidates = v # vs"
    using assms by (auto simp: dsatur_step_def split: list.splits)
  then have "v \<in> set (sort_by (dsatur_cmp lc sat degree) candidates)"
    by simp
  then have "v \<in> set candidates"
    by (simp add: set_sort_by)
  moreover have "\<exists>c. ca' = AList.update v (Some c) ca"
    using assms sv
    by (auto simp: dsatur_step_def Let_def split: option.splits sum.splits)
  ultimately show ?thesis by blast
qed

lemma dsatur_step_decreases:
  assumes "dsatur_step lc h cs degree (uncolored (fst st) courseNames) st = Inr st'"
  shows "length (uncolored (fst st') courseNames) < length (uncolored (fst st) courseNames)"
proof -
  obtain ca sat ca' sat' where st: "st = (ca, sat)" "st' = (ca', sat')"
    by (cases st, cases st') auto
  from dsatur_step_colors [of lc h cs degree "uncolored ca courseNames" ca sat ca' sat']
  obtain v c where v: "v \<in> set (uncolored ca courseNames)" "ca' = AList.update v (Some c) ca"
    using assms st by auto
  let ?P = "\<lambda>nm. color_of ca' nm = None" and ?Q = "\<lambda>nm. color_of ca nm = None"
  have eq: "filter ?P courseNames = filter ?P (filter ?Q courseNames)"
    using v(2) by (auto simp: color_of_update intro!: filter_cong)
  have mem: "v \<in> set (filter ?Q courseNames)" and np: "\<not> ?P v"
    using v by (simp_all add: uncolored_def color_of_update)
  have "length (filter ?P (filter ?Q courseNames)) < length (filter ?Q courseNames)"
    using mem np by (rule length_filter_less)
  then have "length (filter ?P courseNames) < length (filter ?Q courseNames)"
    by (simp only: eq [symmetric])
  then show ?thesis by (simp add: uncolored_def st)
qed

text \<open>The loop \<^verbatim>\<open>while (true)\<close> of lines 354 to 387.\<close>

function dsatur_loop ::
  "(string \<Rightarrow> string \<Rightarrow> int) \<Rightarrow> heap \<Rightarrow> course_map \<Rightarrow> degree_map \<Rightarrow> string list
    \<Rightarrow> color_map \<times> saturation_map \<Rightarrow> js_error + color_map" where
  "dsatur_loop lc h cs degree courseNames st =
    (let candidates = uncolored (fst st) courseNames in
      if length candidates = 0 then Inr (fst st)
      else
        (case dsatur_step lc h cs degree candidates st of
           Inl e \<Rightarrow> Inl e
         | Inr st' \<Rightarrow> dsatur_loop lc h cs degree courseNames st'))"
  by pat_completeness auto
termination
proof (relation "measure (\<lambda>(lc, h, cs, degree, courseNames, st). length (uncolored (fst st) courseNames))")
  show "wf (measure (\<lambda>(lc :: string \<Rightarrow> string \<Rightarrow> int, h :: heap, cs :: course_map,
      degree :: degree_map, courseNames, st :: color_map \<times> saturation_map).
        length (uncolored (fst st) courseNames)))"
    by simp
next
  fix lc :: "string \<Rightarrow> string \<Rightarrow> int" and h :: heap and cs :: course_map
    and degree :: degree_map and courseNames and st st' :: "color_map \<times> saturation_map"
    and candidates
  assume "candidates = uncolored (fst st) courseNames"
    and "dsatur_step lc h cs degree candidates st = Inr st'"
  then have "length (uncolored (fst st') courseNames) < length (uncolored (fst st) courseNames)"
    using dsatur_step_decreases by blast
  then show "((lc, h, cs, degree, courseNames, st'), lc, h, cs, degree, courseNames, st)
      \<in> measure (\<lambda>(lc, h, cs, degree, courseNames, st). length (uncolored (fst st) courseNames))"
    by simp
qed

text \<open>Lines 391 to 398, the body of the loop over the colour assignment.\<close>

definition place_course ::
  "course_map \<Rightarrow> string \<times> nat option \<Rightarrow> heap \<times> slot_map \<Rightarrow> js_error + heap \<times> slot_map" where
  "place_course cs e st =
    (case e of (nm, col) \<Rightarrow> (case st of (h, sl) \<Rightarrow>
      (let slotNum = (case col of None \<Rightarrow> 1 | Some c \<Rightarrow> if c = 0 then 1 else c) in
        (case map_of cs nm of
           None \<Rightarrow> Inl TypeError
         | Some r \<Rightarrow>
             Inr (h[r := (h ! r)\<lparr>slot := Some slotNum, color := slot_color slotNum\<rparr>],
                  slot_push sl slotNum nm)))))"

definition dsaturColoring ::
  "(string \<Rightarrow> string \<Rightarrow> int) \<Rightarrow> heap \<Rightarrow> course_map \<Rightarrow> Student list
    \<Rightarrow> heap \<times> (js_error + ScheduleResult)" where
  "dsaturColoring lc h originalCourses studs =
    (case fold copy_course originalCourses (h, []) of (h1, cs) \<Rightarrow>
      (let courseNames = map fst cs; n = length courseNames in
        if n = 0 then
          (h1, Inr \<lparr>courses = cs, slots = [], totalSlots = 0, totalConflicts = 0, students = studs,
                    conflictDetails = \<lparr>totalPairs = 0, conflictPairsList = []\<rparr>\<rparr>)
        else
          (case forEach (init_maps h1 cs) courseNames ([], [], []) of
             Inl (e, _) \<Rightarrow> (h1, Inl e)
           | Inr (colorAssignment0, saturation0, degree) \<Rightarrow>
              (case dsatur_loop lc h1 cs degree courseNames (colorAssignment0, saturation0) of
                 Inl e \<Rightarrow> (h1, Inl e)
               | Inr colorAssignment \<Rightarrow>
                  (case forEach (place_course cs) colorAssignment (h1, []) of
                     Inl (e, (h2, _)) \<Rightarrow> (h2, Inl e)
                   | Inr (h2, sl) \<Rightarrow>
                      (let conflictPairs = conflict_pairs h2 (map snd cs);
                           total = length conflictPairs
                       in (h2,
                           Inr \<lparr>courses = cs, slots = sl, totalSlots = length sl,
                                totalConflicts = total, students = studs,
                                conflictDetails =
                                  \<lparr>totalPairs = total,
                                   conflictPairsList =
                                     map (split_on CHR ''|'') conflictPairs\<rparr>\<rparr>)))))))"

section \<open>Properties of course graphs\<close>

text \<open>
  A course graph is well formed in a store when its keys are distinct, every reference
  points into the store and every course is filed under its own name.
\<close>

definition wf_graph :: "heap \<Rightarrow> course_map \<Rightarrow> bool" where
  "wf_graph h g = (distinct (map fst g) \<and> list_all (\<lambda>(k, r). r < length h \<and> name (h ! r) = k) g)"

text \<open>
  The symmetry invariant: for all courses \<open>A\<close> and \<open>B\<close> of the graph, \<open>B\<close> is in the
  conflict set of \<open>A\<close> exactly when \<open>A\<close> is in the conflict set of \<open>B\<close>. No self conflict:
  no course is in its own conflict set.
\<close>

definition symmetric_graph :: "heap \<Rightarrow> course_map \<Rightarrow> bool" where
  "symmetric_graph h g =
    list_all (\<lambda>a. list_all (\<lambda>b. conflicts_has h g a b = conflicts_has h g b a) (map fst g)) (map fst g)"

definition no_self_conflict :: "heap \<Rightarrow> course_map \<Rightarrow> bool" where
  "no_self_conflict h g = list_all (\<lambda>a. \<not> conflicts_has h g a a) (map fst g)"

text \<open>The unordered pairs \<open>{A, B}\<close> with \<open>B\<close> in the conflict set of \<open>A\<close>, and their number.\<close>

definition conflict_edges :: "heap \<Rightarrow> course_map \<Rightarrow> string set list" where
  "conflict_edges h g = concat (map (\<lambda>(k, r). map (\<lambda>b. {name (h ! r), b}) (conflicts (h ! r))) g)"

definition unordered_pair_count :: "heap \<Rightarrow> course_map \<Rightarrow> nat" where
  "unordered_pair_count h g = card (set (conflict_edges h g))"

text \<open>The state of the loop that creates the courses (lines 94 to 100).\<close>

definition courses_ok :: "heap \<times> course_map \<times> string list \<Rightarrow> bool" where
  "courses_ok st = (case st of (h, cs, validCourses) \<Rightarrow>
     wf_graph h cs \<and> set validCourses = set (map fst cs) \<and>
     (\<forall>k r. map_of cs k = Some r \<longrightarrow> conflicts (h ! r) = []))"

subsection \<open>Example inputs\<close>

text \<open>A comparison by code units, used where an example needs a concrete \<open>lc\<close>.\<close>

definition js_compare :: "string \<Rightarrow> string \<Rightarrow> int" where
  "js_compare a b = (if js_less a b then - 1 else if js_less b a then 1 else 0)"

definition example_students :: "Student list" where
  "example_students =
    [\<lparr>student_id = ''S1'', student_courses = [''Math'', ''Physics'']\<rparr>,
     \<lparr>student_id = ''S2'', student_courses = [''Physics'', ''Chemistry'']\<rparr>]"

definition example_heap :: heap where
  "example_heap =
    [\<lparr>name = ''Math'', conflicts = [''Physics''], slot = None, color = None\<rparr>,
     \<lparr>name = ''Physics'', conflicts = [''Math'', ''Chemistry''], slot = None, color = None\<rparr>,
     \<lparr>name = ''Chemistry'', conflicts = [''Physics''], slot = None, color = None\<rparr>]"

definition example_graph :: course_map where
  "example_graph = [(''Math'', 0), (''Physics'', 1), (''Chemistry'', 2)]"

definition example_colored :: heap where
  "example_colored =
    [\<lparr>name = ''Math'', conflicts = [''Physics''], slot = Some 2, color = Some ''#10B981''\<rparr>,
     \<lparr>name = ''Physics'', conflicts = [''Math'', ''Chemistry''], slot = Some 1, color = Some ''#3B82F6''\<rparr>,
     \<lparr>name = ''Chemistry'', conflicts = [''Physics''], slot = Some 2, color = Some ''#10B981''\<rparr>]"

definition asym_heap :: heap where
  "asym_heap =
    [\<lparr>name = ''A'', conflicts = [''B''], slot = None, color = None\<rparr>,
     \<lparr>name = ''B'', conflicts = [], slot = None, color = None\<rparr>]"

definition asym_graph :: course_map where
  "asym_graph = [(''A'', 0), (''B'', 1)]"

definition asym_colored :: heap where
  "asym_colored =
    [\<lparr>name = ''A'', conflicts = [''B''], slot = Some 1, color = Some ''#3B82F6''\<rparr>,
     \<lparr>name = ''B'', conflicts = [], slot = Some 1, color = Some ''#3B82F6''\<rparr>]"

definition asym_result :: ScheduleResult where
  "asym_result =
    \<lparr>courses = asym_graph, slots = [(1, [''A'', ''B''])], totalSlots = 1, totalConflicts = 1,
     students = [],
     conflictDetails = \<lparr>totalPairs = 1, conflictPairsList = [[''A'', ''B'']]\<rparr>\<rparr>"

definition dup_student :: "Student list" where
  "dup_student = [\<lparr>student_id = ''S1'', student_courses = [''Math'', ''Math'']\<rparr>]"

definition bar_students :: "Student list" where
  "bar_students =
    [\<lparr>student_id = ''S1'', student_courses = [''A'', ''B|C'']\<rparr>,
     \<lparr>student_id = ''S2'', student_courses = [''A|B'', ''C'']\<rparr>]"

definition bar_heap :: heap where
  "bar_heap =
    [\<lparr>name = ''A'', conflicts = [''B|C''], slot = None, color = None\<rparr>,
     \<lparr>name = ''B|C'', conflicts = [''A''], slot = None, color = None\<rparr>,
     \<lparr>name = ''A|B'', conflicts = [''C''], slot = None, color = None\<rparr>,
     \<lparr>name = ''C'', conflicts = [''A|B''], slot = None, color = None\<rparr>]"

definition bar_graph :: course_map where
  "bar_graph = [(''A'', 0), (''B|C'', 1), (''A|B'', 2), (''C'', 3)]"

subsection \<open>Colorings\<close>

text \<open>
  The conflict set, the slot and the display colour of a course, read through the map:
  the three functions of a name that the colorers and the verifier work with.
\<close>

definition cf_of :: "heap \<Rightarrow> course_map \<Rightarrow> string \<Rightarrow> string list" where
  "cf_of h g a = (case map_of g a of None \<Rightarrow> [] | Some r \<Rightarrow> conflicts (h ! r))"

definition col_of :: "heap \<Rightarrow> course_map \<Rightarrow> string \<Rightarrow> nat option" where
  "col_of h g a = (case map_of g a of None \<Rightarrow> None | Some r \<Rightarrow> slot (h ! r))"

definition paint_of :: "heap \<Rightarrow> course_map \<Rightarrow> string \<Rightarrow> string option" where
  "paint_of h g a = (case map_of g a of None \<Rightarrow> None | Some r \<Rightarrow> color (h ! r))"

text \<open>
  A slot map represents a slot assignment \<open>col\<close> of the placed courses \<open>P\<close> when its keys
  are distinct and the list of a slot holds exactly the placed courses of that slot, in
  the order in which they were placed.
\<close>

definition represents :: "slot_map \<Rightarrow> (string \<Rightarrow> nat option) \<Rightarrow> string list \<Rightarrow> bool" where
  "represents sl col P \<longleftrightarrow>
    distinct (map fst sl) \<and>
    (\<forall>s. map_of sl s =
      (if \<exists>nm \<in> set P. col nm = Some s then Some (filter (\<lambda>nm. col nm = Some s) P) else None))"

text \<open>
  The slots in use have no gap above slot 1; courses of one slot do not list each other.
\<close>

definition closed_colors :: "(string \<Rightarrow> nat option) \<Rightarrow> bool" where
  "closed_colors col \<longleftrightarrow>
    (\<forall>a s. col a = Some s \<longrightarrow> 1 \<le> s \<and> (\<forall>t. 1 \<le> t \<and> t < s \<longrightarrow> (\<exists>b. col b = Some t)))"

definition proper_coloring :: "(string \<Rightarrow> string list) \<Rightarrow> (string \<Rightarrow> nat option) \<Rightarrow> bool" where
  "proper_coloring cf col \<longleftrightarrow>
    (\<forall>a b s. a \<noteq> b \<and> col a = Some s \<and> col b = Some s \<longrightarrow> b \<notin> set (cf a))"

definition symmetric_cf :: "(string \<Rightarrow> string list) \<Rightarrow> course_map \<Rightarrow> bool" where
  "symmetric_cf cf g \<longleftrightarrow>
    (\<forall>a \<in> set (map fst g). \<forall>b \<in> set (map fst g). (b \<in> set (cf a)) = (a \<in> set (cf b)))"

text \<open>
  The state of a colorer after the courses \<open>P\<close> have been placed. The flag \<open>symm\<close> says
  whether the graph is known to be symmetric; only then is the coloring proper.
\<close>

definition coloring_inv ::
  "bool \<Rightarrow> (string \<Rightarrow> string list) \<Rightarrow> course_map \<Rightarrow> heap \<Rightarrow> slot_map \<Rightarrow> string list \<Rightarrow> bool" where
  "coloring_inv symm cf g h sl P \<longleftrightarrow>
    wf_graph h g \<and> cf_of h g = cf \<and> distinct P \<and> set P \<subseteq> set (map fst g) \<and>
    represents sl (col_of h g) P \<and>
    (\<forall>a. col_of h g a \<noteq> None \<longleftrightarrow> a \<in> set P) \<and>
    closed_colors (col_of h g) \<and>
    (symm \<longrightarrow> proper_coloring cf (col_of h g)) \<and>
    (\<forall>a. paint_of h g a = (case col_of h g a of None \<Rightarrow> None | Some s \<Rightarrow> slot_color s))"

text \<open>The statements of the results: slots without conflict, slots as a partition, cliques.\<close>

definition slot_conflict_free :: "heap \<Rightarrow> course_map \<Rightarrow> slot_map \<Rightarrow> bool" where
  "slot_conflict_free h g sl =
    list_all (\<lambda>(s, ns). list_all (\<lambda>a. list_all (\<lambda>b. a \<noteq> b \<longrightarrow> \<not> conflicts_has h g a b) ns) ns) sl"

definition slots_partition :: "heap \<Rightarrow> course_map \<Rightarrow> slot_map \<Rightarrow> bool" where
  "slots_partition h g sl =
    list_all (\<lambda>(k, ref).
      case slot (h ! ref) of
        None \<Rightarrow> False
      | Some s \<Rightarrow>
          (case map_of sl s of None \<Rightarrow> False | Some ns \<Rightarrow> count_list ns k = 1)
          \<and> list_all (\<lambda>(s', ns'). k \<in> set ns' \<longrightarrow> s' = s) sl) g"

definition clique :: "heap \<Rightarrow> course_map \<Rightarrow> string set \<Rightarrow> bool" where
  "clique h g K \<longleftrightarrow>
    K \<subseteq> set (map fst g) \<and> (\<forall>a \<in> K. \<forall>b \<in> K. a \<noteq> b \<longrightarrow> conflicts_has h g a b)"

text \<open>Every name in a conflict set is a course of the graph.\<close>

definition closed_graph :: "heap \<Rightarrow> course_map \<Rightarrow> bool" where
  "closed_graph h g = list_all (\<lambda>(k, r). list_all (\<lambda>b. b \<in> set (map fst g)) (conflicts (h ! r))) g"

text \<open>A name without the separator of the pair keys.\<close>

definition bar_free :: "string \<Rightarrow> bool" where
  "bar_free a = (CHR ''|'' \<notin> set a)"

text \<open>The directed conflict edges of a list of courses.\<close>

definition edges_of :: "heap \<Rightarrow> ref list \<Rightarrow> (string \<times> string) set" where
  "edges_of h rs = {(name (h ! r), b) | r b. r \<in> set rs \<and> b \<in> set (conflicts (h ! r))}"

text \<open>No course name and no name in a conflict set contains the separator.\<close>

definition names_bar_free :: "heap \<Rightarrow> course_map \<Rightarrow> bool" where
  "names_bar_free h g = list_all (\<lambda>(k, r). bar_free k \<and> list_all bar_free (conflicts (h ! r))) g"

text \<open>Two courses with the same name and the same conflict set, whatever its order.\<close>

definition same_item :: "string \<times> string list \<Rightarrow> string \<times> string list \<Rightarrow> bool" where
  "same_item a b \<longleftrightarrow> fst a = fst b \<and> set (snd a) = set (snd b) \<and> length (snd a) = length (snd b)"

text \<open>
  Two graphs with the same conflict sets: every name has the same conflicting names and
  the same number of them in both.
\<close>

definition same_conflicts :: "heap \<Rightarrow> course_map \<Rightarrow> heap \<Rightarrow> course_map \<Rightarrow> bool" where
  "same_conflicts h1 g1 h2 g2 \<longleftrightarrow>
    (\<forall>k. set (cf_of h1 g1 k) = set (cf_of h2 g2 k)
       \<and> length (cf_of h1 g1 k) = length (cf_of h2 g2 k))"

subsection \<open>Invariants of the DSATUR colorer\<close>

text \<open>
  The copies are fresh: the caller's store is a prefix of the current store and every
  reference of the new map lies behind it.
\<close>

definition fresh_from :: "nat \<Rightarrow> heap \<Rightarrow> heap \<times> course_map \<Rightarrow> bool" where
  "fresh_from n h st = (case st of (hh, cs) \<Rightarrow>
     n \<le> length hh \<and> take n hh = take n h \<and> (\<forall>(k, r) \<in> set cs. n \<le> r \<and> r < length hh))"

definition frame_ok :: "nat \<Rightarrow> heap \<Rightarrow> nat \<Rightarrow> heap \<times> slot_map \<Rightarrow> bool" where
  "frame_ok n h m st = (case st of (hh, sl) \<Rightarrow> length hh = m \<and> take n hh = take n h)"

definition copy_inv :: "heap \<Rightarrow> course_map \<Rightarrow> heap \<times> course_map \<Rightarrow> bool" where
  "copy_inv h g st = (case st of (hh, cs) \<Rightarrow>
     wf_graph hh cs \<and> length h \<le> length hh \<and> take (length h) hh = h \<and>
     (\<forall>a. cf_of hh cs a = (if a \<in> set (map fst cs) then cf_of h g a else [])) \<and>
     (\<forall>a. col_of hh cs a = None) \<and> (\<forall>a. paint_of hh cs a = None))"

definition dsatur_inv ::
  "bool \<Rightarrow> (string \<Rightarrow> string list) \<Rightarrow> string list \<Rightarrow> color_map \<Rightarrow> bool" where
  "dsatur_inv symm cf courseNames ca \<longleftrightarrow>
    distinct (map fst ca) \<and> set (map fst ca) = set courseNames \<and>
    closed_colors (color_of ca) \<and> (symm \<longrightarrow> proper_coloring cf (color_of ca))"

definition place_inv ::
  "(string \<Rightarrow> string list) \<Rightarrow> course_map \<Rightarrow> color_map \<Rightarrow> heap \<Rightarrow> slot_map \<Rightarrow> string list \<Rightarrow> bool" where
  "place_inv cf cs ca hh sl P \<longleftrightarrow>
    wf_graph hh cs \<and> cf_of hh cs = cf \<and> represents sl (col_of hh cs) P \<and>
    (\<forall>a. col_of hh cs a = (if a \<in> set P then color_of ca a else None)) \<and>
    (\<forall>a. paint_of hh cs a = (case col_of hh cs a of None \<Rightarrow> None | Some s \<Rightarrow> slot_color s))"

subsection \<open>The greedy colorer as a function of names and conflict sets\<close>

definition item :: "heap \<Rightarrow> ref \<Rightarrow> string \<times> string list" where
  "item h r = (name (h ! r), conflicts (h ! r))"

definition item_cmp :: "(string \<Rightarrow> string \<Rightarrow> int) \<Rightarrow> string \<times> string list \<Rightarrow> string \<times> string list \<Rightarrow> int" where
  "item_cmp lc a b =
    (if length (snd b) \<noteq> length (snd a) then int (length (snd b)) - int (length (snd a))
     else lc (fst a) (fst b))"

definition assign_slots :: "(string \<times> string list) list \<Rightarrow> slot_map \<Rightarrow> slot_map" where
  "assign_slots items sl = fold (\<lambda>(nm, cfl) sl'. slot_push sl' (find_slot cfl sl' 1) nm) items sl"

definition pair_keys :: "(string \<times> string list) list \<Rightarrow> string list" where
  "pair_keys items =
    fold (\<lambda>(nm, cfl) cp. fold (\<lambda>conflictCourse cp'. set_add cp' (pair_key nm conflictCourse)) cfl cp)
      items []"

text \<open>The coloured example with one conflict set in another order of insertion.\<close>

definition example_reordered :: heap where
  "example_reordered =
    [\<lparr>name = ''Math'', conflicts = [''Physics''], slot = Some 2, color = Some ''#10B981''\<rparr>,
     \<lparr>name = ''Physics'', conflicts = [''Chemistry'', ''Math''], slot = Some 1, color = Some ''#3B82F6''\<rparr>,
     \<lparr>name = ''Chemistry'', conflicts = [''Physics''], slot = Some 2, color = Some ''#10B981''\<rparr>]"

subsection \<open>A triangle\<close>

definition triangle_heap :: heap where
  "triangle_heap =
    [\<lparr>name = ''A'', conflicts = [''B'', ''C''], slot = None, color = None\<rparr>,
     \<lparr>name = ''B'', conflicts = [''A'', ''C''], slot = None, color = None\<rparr>,
     \<lparr>name = ''C'', conflicts = [''A'', ''B''], slot = None, color = None\<rparr>]"

definition triangle_graph :: course_map where
  "triangle_graph = [(''A'', 0), (''B'', 1), (''C'', 2)]"

section \<open>The conflict graph builder: every edge comes from a student\<close>

lemma wf_graph_iff:
  "wf_graph h g \<longleftrightarrow>
    distinct (map fst g) \<and> (\<forall>k r. map_of g k = Some r \<longrightarrow> r < length h \<and> name (h ! r) = k)"
  by (auto simp: wf_graph_def list_all_iff dest: map_of_SomeD)

lemma wf_graph_inj:
  "wf_graph h g \<Longrightarrow> map_of g a = Some r \<Longrightarrow> map_of g b = Some r \<Longrightarrow> a = b"
  by (metis wf_graph_iff)

lemma forEach_total:
  assumes "P s"
    and "\<And>x t. x \<in> set xs \<Longrightarrow> P t \<Longrightarrow> \<exists>t'. f x t = Inr t' \<and> P t'"
  shows "\<exists>s'. forEach f xs s = Inr s' \<and> P s'"
  using assms
proof (induction xs arbitrary: s)
  case Nil
  then show ?case by simp
next
  case (Cons x xs)
  from Cons.prems obtain t where t: "f x s = Inr t" "P t"
    by (metis list.set_intros(1))
  have "\<exists>s'. forEach f xs t = Inr s' \<and> P s'"
    by (rule Cons.IH) (use t Cons.prems in auto)
  with t show ?case by simp
qed

lemma forEach_invariant:
  assumes "forEach f xs s = Inr s'" "P s"
    and "\<And>x t t'. x \<in> set xs \<Longrightarrow> P t \<Longrightarrow> f x t = Inr t' \<Longrightarrow> P t'"
  shows "P s'"
  using assms
proof (induction xs arbitrary: s)
  case Nil
  then show ?case by simp
next
  case (Cons x xs)
  from Cons.prems(1) obtain t where t: "f x s = Inr t" "forEach f xs t = Inr s'"
    by (auto split: sum.splits)
  have "P t" using Cons.prems(2,3) t(1) by (metis list.set_intros(1))
  show ?case
    by (rule Cons.IH [OF t(2) \<open>P t\<close>]) (use Cons.prems(3) in auto)
qed

lemma set_set_add: "set (set_add xs x) = insert x (set xs)"
  by (auto simp: set_add_def)

text \<open>The effect of one insertion into a conflict set, seen through the map.\<close>

lemma add_conflict_effect:
  assumes wf: "wf_graph h cs" and c1: "c1 \<in> set (map fst cs)"
  shows "\<exists>h'. add_conflict cs c1 c2 h = Inr h' \<and> wf_graph h' cs \<and>
    (\<forall>a b. conflicts_has h' cs a b = (conflicts_has h cs a b \<or> (a = c1 \<and> b = c2)))"
proof -
  from c1 obtain r1 where r1: "map_of cs c1 = Some r1"
    by (metis map_of_eq_None_iff not_Some_eq set_map)
  define h' where "h' = h[r1 := (h ! r1)\<lparr>conflicts := set_add (conflicts (h ! r1)) c2\<rparr>]"
  have lt: "r1 < length h" using wf r1 by (auto simp: wf_graph_iff)
  have eq: "add_conflict cs c1 c2 h = Inr h'"
    by (simp add: add_conflict_def r1 h'_def)
  have nm: "\<And>r. name (h' ! r) = name (h ! r)"
    using lt by (simp add: h'_def nth_list_update)
  have wf': "wf_graph h' cs"
    using wf by (simp add: wf_graph_iff nm) (simp add: h'_def)
  have "conflicts_has h' cs a b = (conflicts_has h cs a b \<or> (a = c1 \<and> b = c2))" for a b
  proof (cases "map_of cs a")
    case None
    then show ?thesis using r1 by (auto simp: conflicts_has_def)
  next
    case (Some ra)
    show ?thesis
    proof (cases "ra = r1")
      case True
      then have "a = c1" using wf_graph_inj [OF wf Some] r1 by simp
      then show ?thesis
        using lt by (auto simp: conflicts_has_def r1 h'_def set_set_add)
    next
      case False
      then have "a \<noteq> c1" using Some r1 by auto
      then show ?thesis
        using False by (simp add: conflicts_has_def Some h'_def)
    qed
  qed
  with eq wf' show ?thesis by blast
qed


lemma add_pair_effect:
  assumes wf: "wf_graph h cs" and c1: "c1 \<in> set (map fst cs)" and c2: "c2 \<in> set (map fst cs)"
  shows "\<exists>h'. add_pair cs (c1, c2) h = Inr h' \<and> wf_graph h' cs \<and>
    (\<forall>a b. conflicts_has h' cs a b =
      (conflicts_has h cs a b \<or> (a = c1 \<and> b = c2) \<or> (a = c2 \<and> b = c1)))"
proof -
  from add_conflict_effect [OF wf c1, of c2] obtain h1 where
    h1: "add_conflict cs c1 c2 h = Inr h1" "wf_graph h1 cs"
      "\<And>a b. conflicts_has h1 cs a b = (conflicts_has h cs a b \<or> (a = c1 \<and> b = c2))"
    by blast
  from add_conflict_effect [OF h1(2) c2, of c1] obtain h2 where
    h2: "add_conflict cs c2 c1 h1 = Inr h2" "wf_graph h2 cs"
      "\<And>a b. conflicts_has h2 cs a b = (conflicts_has h1 cs a b \<or> (a = c2 \<and> b = c1))"
    by blast
  have "add_pair cs (c1, c2) h = Inr h2"
    by (simp add: add_pair_def h1(1) h2(1))
  moreover have "conflicts_has h2 cs a b =
      (conflicts_has h cs a b \<or> (a = c1 \<and> b = c2) \<or> (a = c2 \<and> b = c1))" for a b
    by (simp add: h2(3) h1(3))
  ultimately show ?thesis using h2(2) by blast
qed

lemma add_pairs_effect:
  assumes "wf_graph h cs" and "\<forall>p \<in> set ps. fst p \<in> set (map fst cs) \<and> snd p \<in> set (map fst cs)"
  shows "\<exists>h'. forEach (add_pair cs) ps h = Inr h' \<and> wf_graph h' cs \<and>
    (\<forall>a b. conflicts_has h' cs a b =
      (conflicts_has h cs a b \<or> (a, b) \<in> set ps \<or> (b, a) \<in> set ps))"
  using assms
proof (induction ps arbitrary: h)
  case Nil
  then show ?case by simp
next
  case (Cons p ps)
  obtain c1 c2 where p: "p = (c1, c2)" by (cases p)
  have k: "c1 \<in> set (map fst cs)" "c2 \<in> set (map fst cs)"
    using Cons.prems(2) p by auto
  from add_pair_effect [OF Cons.prems(1) k] obtain h1 where
    h1: "add_pair cs (c1, c2) h = Inr h1" "wf_graph h1 cs"
      "\<And>a b. conflicts_has h1 cs a b =
        (conflicts_has h cs a b \<or> (a = c1 \<and> b = c2) \<or> (a = c2 \<and> b = c1))"
    by blast
  have "\<exists>h'. forEach (add_pair cs) ps h1 = Inr h' \<and> wf_graph h' cs \<and>
    (\<forall>a b. conflicts_has h' cs a b =
      (conflicts_has h1 cs a b \<or> (a, b) \<in> set ps \<or> (b, a) \<in> set ps))"
    by (rule Cons.IH [OF h1(2)]) (use Cons.prems(2) in simp)
  then obtain h2 where
    h2: "forEach (add_pair cs) ps h1 = Inr h2" "wf_graph h2 cs"
      "\<And>a b. conflicts_has h2 cs a b =
        (conflicts_has h1 cs a b \<or> (a, b) \<in> set ps \<or> (b, a) \<in> set ps)"
    by blast
  have "forEach (add_pair cs) (p # ps) h = Inr h2"
    by (simp add: p h1(1) h2(1))
  moreover have "conflicts_has h2 cs a b =
      (conflicts_has h cs a b \<or> (a, b) \<in> set (p # ps) \<or> (b, a) \<in> set (p # ps))" for a b
    by (auto simp: h2(3) h1(3) p)
  ultimately show ?case using h2(2) by blast
qed

lemma set_pairs_subset: "(a, b) \<in> set (pairs xs) \<Longrightarrow> a \<in> set xs \<and> b \<in> set xs"
  by (induction xs) auto

lemma set_studentValidCourses:
  "c \<in> set (studentValidCourses validCourses student) \<Longrightarrow> c \<in> set validCourses"
  by (simp add: studentValidCourses_def)

lemma studentValidCourses_cong:
  "set v = set w \<Longrightarrow> studentValidCourses v student = studentValidCourses w student"
  by (simp add: studentValidCourses_def)

lemma pairs_short: "length xs \<le> 1 \<Longrightarrow> pairs xs = []"
  by (cases xs) auto

lemma add_student_effect:
  assumes wf: "wf_graph h cs" and valid: "set validCourses = set (map fst cs)"
  shows "\<exists>h'. add_student cs validCourses student h = Inr h' \<and> wf_graph h' cs \<and>
    (\<forall>a b. conflicts_has h' cs a b =
      (conflicts_has h cs a b
        \<or> (a, b) \<in> set (pairs (studentValidCourses validCourses student))
        \<or> (b, a) \<in> set (pairs (studentValidCourses validCourses student))))"
proof (cases "length (studentValidCourses validCourses student) > 1")
  case True
  have "\<forall>p \<in> set (pairs (studentValidCourses validCourses student)).
      fst p \<in> set (map fst cs) \<and> snd p \<in> set (map fst cs)"
  proof
    fix p assume "p \<in> set (pairs (studentValidCourses validCourses student))"
    then have "fst p \<in> set (studentValidCourses validCourses student)
        \<and> snd p \<in> set (studentValidCourses validCourses student)"
      using set_pairs_subset [of "fst p" "snd p"] by simp
    then show "fst p \<in> set (map fst cs) \<and> snd p \<in> set (map fst cs)"
      using valid set_studentValidCourses by blast
  qed
  from add_pairs_effect [OF wf this] True show ?thesis
    by (auto simp: add_student_def Let_def)
next
  case False
  then have "pairs (studentValidCourses validCourses student) = []"
    by (simp add: pairs_short)
  with False wf show ?thesis
    by (simp add: add_student_def Let_def)
qed

lemma add_students_effect:
  assumes "wf_graph h cs" and valid: "set validCourses = set (map fst cs)"
  shows "\<exists>h'. forEach (add_student cs validCourses) studs h = Inr h' \<and> wf_graph h' cs \<and>
    (\<forall>a b. conflicts_has h' cs a b =
      (conflicts_has h cs a b
        \<or> (\<exists>student \<in> set studs.
              (a, b) \<in> set (pairs (studentValidCourses validCourses student))
            \<or> (b, a) \<in> set (pairs (studentValidCourses validCourses student)))))"
  using assms(1)
proof (induction studs arbitrary: h)
  case Nil
  then show ?case by simp
next
  case (Cons student studs)
  from add_student_effect [OF Cons.prems valid, of student] obtain h1 where
    h1: "add_student cs validCourses student h = Inr h1" "wf_graph h1 cs"
      "\<And>a b. conflicts_has h1 cs a b =
      (conflicts_has h cs a b
        \<or> (a, b) \<in> set (pairs (studentValidCourses validCourses student))
        \<or> (b, a) \<in> set (pairs (studentValidCourses validCourses student)))"
    by blast
  from Cons.IH [OF h1(2)] obtain h2 where
    h2: "forEach (add_student cs validCourses) studs h1 = Inr h2" "wf_graph h2 cs"
      "\<And>a b. conflicts_has h2 cs a b =
      (conflicts_has h1 cs a b
        \<or> (\<exists>student \<in> set studs.
              (a, b) \<in> set (pairs (studentValidCourses validCourses student))
            \<or> (b, a) \<in> set (pairs (studentValidCourses validCourses student))))"
    by blast
  have "forEach (add_student cs validCourses) (student # studs) h = Inr h2"
    by (simp add: h1(1) h2(1))
  moreover have "conflicts_has h2 cs a b =
      (conflicts_has h cs a b
        \<or> (\<exists>s \<in> set (student # studs).
              (a, b) \<in> set (pairs (studentValidCourses validCourses s))
            \<or> (b, a) \<in> set (pairs (studentValidCourses validCourses s))))" for a b
    by (auto simp: h2(3) h1(3))
  ultimately show ?case using h2(2) by blast
qed


lemma add_course_ok:
  assumes "courses_ok st"
  shows "courses_ok (add_course nm st)"
proof -
  obtain h cs v where st: "st = (h, cs, v)" by (cases st)
  show ?thesis
  proof (cases "nm \<noteq> [] \<and> trim nm \<noteq> []")
    case False
    then show ?thesis using assms by (auto simp: add_course_def st)
  next
    case True
    let ?c = "\<lparr>name = trim nm, conflicts = [], slot = None, color = None\<rparr>"
    have eq: "add_course nm st = (h @ [?c], AList.update (trim nm) (length h) cs, set_add v (trim nm))"
      using True by (simp add: add_course_def st Let_def)
    have old: "wf_graph h cs" "set v = set (map fst cs)"
      "\<And>k r. map_of cs k = Some r \<Longrightarrow> conflicts (h ! r) = []"
      using assms by (auto simp: courses_ok_def st)
    have lt: "\<And>k r. map_of cs k = Some r \<Longrightarrow> r < length h \<and> name (h ! r) = k"
      using old(1) by (simp add: wf_graph_iff)
    have "wf_graph (h @ [?c]) (AList.update (trim nm) (length h) cs)"
      unfolding wf_graph_iff
    proof (intro conjI allI impI)
      show "distinct (map fst (AList.update (trim nm) (length h) cs))"
        using old(1) by (simp add: wf_graph_iff distinct_update)
    next
      fix k r assume "map_of (AList.update (trim nm) (length h) cs) k = Some r"
      then have "(k = trim nm \<and> r = length h) \<or> (k \<noteq> trim nm \<and> map_of cs k = Some r)"
        by (auto simp: update_conv' split: if_splits)
      then show "r < length (h @ [?c])" "name ((h @ [?c]) ! r) = k"
        using lt [of k r] by (auto simp: nth_append)
    qed
    moreover have "set (set_add v (trim nm)) = set (map fst (AList.update (trim nm) (length h) cs))"
      using old(2) by (auto simp: set_set_add update_keys)
    moreover have "conflicts ((h @ [?c]) ! r) = []"
      if "map_of (AList.update (trim nm) (length h) cs) k = Some r" for k r
    proof -
      from that have "(k = trim nm \<and> r = length h) \<or> (k \<noteq> trim nm \<and> map_of cs k = Some r)"
        by (auto simp: update_conv' split: if_splits)
      then show ?thesis using lt [of k r] old(3) [of k r] by (auto simp: nth_append)
    qed
    ultimately show ?thesis
      by (simp add: eq courses_ok_def)
  qed
qed

lemma fold_add_course_ok: "courses_ok st \<Longrightarrow> courses_ok (fold add_course nms st)"
  by (induction nms arbitrary: st) (simp_all add: add_course_ok)

lemma buildConflictGraph_effect:
  "\<exists>h' g. buildConflictGraph h studs courseNames = Inr (h', g) \<and> wf_graph h' g \<and>
    (\<forall>a b. conflicts_has h' g a b =
      (\<exists>student \<in> set studs.
          (a, b) \<in> set (pairs (studentValidCourses (map fst g) student))
        \<or> (b, a) \<in> set (pairs (studentValidCourses (map fst g) student))))"
proof -
  obtain h1 cs v where f: "fold add_course courseNames (h, [], []) = (h1, cs, v)"
    by (cases "fold add_course courseNames (h, [], [])")
  have "courses_ok (h, [], [])"
    by (simp add: courses_ok_def wf_graph_def)
  then have "courses_ok (h1, cs, v)"
    using fold_add_course_ok [of "(h, [], [])" courseNames] f by simp
  then have ok: "wf_graph h1 cs" "set v = set (map fst cs)"
    "\<And>k r. map_of cs k = Some r \<Longrightarrow> conflicts (h1 ! r) = []"
    by (auto simp: courses_ok_def)
  have none: "\<not> conflicts_has h1 cs a b" for a b
    using ok(3) by (auto simp: conflicts_has_def split: option.splits)
  from add_students_effect [OF ok(1,2), of studs] obtain h2 where
    h2: "forEach (add_student cs v) studs h1 = Inr h2" "wf_graph h2 cs"
      "\<And>a b. conflicts_has h2 cs a b =
      (conflicts_has h1 cs a b
        \<or> (\<exists>student \<in> set studs.
              (a, b) \<in> set (pairs (studentValidCourses v student))
            \<or> (b, a) \<in> set (pairs (studentValidCourses v student))))"
    by blast
  have "buildConflictGraph h studs courseNames = Inr (h2, cs)"
    by (simp add: buildConflictGraph_def f h2(1))
  moreover have "studentValidCourses v student = studentValidCourses (map fst cs) student" for student
    by (rule studentValidCourses_cong) (rule ok(2))
  ultimately show ?thesis
    using h2(2,3) none by auto
qed


lemma symmetric_graph_iff:
  "symmetric_graph h g \<longleftrightarrow>
    (\<forall>a \<in> set (map fst g). \<forall>b \<in> set (map fst g). conflicts_has h g a b = conflicts_has h g b a)"
  by (simp add: symmetric_graph_def list_all_iff)

lemma example_build:
  "buildConflictGraph [] example_students [''Math'', ''Physics'', ''Chemistry'']
    = Inr (example_heap, example_graph)"
  by code_simp

section \<open>Results on the builder\<close>

text \<open>
  Claim C3. For every sequence of students and every course universe the builder returns
  a graph (it never throws), and the graph is symmetric: for all courses \<open>A\<close> and \<open>B\<close> of
  the graph, \<open>B\<close> is in the conflict set of \<open>A\<close> if and only if \<open>A\<close> is in the conflict set
  of \<open>B\<close>.
\<close>

theorem buildConflictGraph_symmetric:
  "case buildConflictGraph h studs courseNames of
     Inl e \<Rightarrow> False
   | Inr (h', g) \<Rightarrow> symmetric_graph h' g"
proof -
  from buildConflictGraph_effect [of h studs courseNames] obtain h' g where
    b: "buildConflictGraph h studs courseNames = Inr (h', g)"
      "\<And>a b. conflicts_has h' g a b =
      (\<exists>student \<in> set studs.
          (a, b) \<in> set (pairs (studentValidCourses (map fst g) student))
        \<or> (b, a) \<in> set (pairs (studentValidCourses (map fst g) student)))"
    by blast
  have "conflicts_has h' g a b = conflicts_has h' g b a" for a b
    unfolding b(2) by blast
  then show ?thesis
    by (simp add: b(1) symmetric_graph_def list_all_iff)
qed

theorem buildConflictGraph_symmetric_witness:
  "symmetric_graph example_heap example_graph
    \<and> conflicts_has example_heap example_graph ''Math'' ''Physics''
    \<and> conflicts_has example_heap example_graph ''Physics'' ''Math''"
proof -
  have "symmetric_graph example_heap example_graph"
    using buildConflictGraph_symmetric [of "[]" example_students "[''Math'', ''Physics'', ''Chemistry'']"]
    by (simp add: example_build)
  moreover have "conflicts_has example_heap example_graph ''Math'' ''Physics''
      \<and> conflicts_has example_heap example_graph ''Physics'' ''Math''"
    by code_simp
  ultimately show ?thesis by simp
qed

text \<open>
  Claim C2. The claim says that no course appears in its own conflict set. The builder
  links the courses at every two distinct positions of a student's filtered list, so a
  student who mentions one course twice links that course to itself: for the student
  \<open>S1: Math, Math\<close> and the universe \<open>[Math]\<close> the conflict set of \<open>Math\<close> is \<open>[Math]\<close>.
\<close>

theorem buildConflictGraph_self_conflict:
  "buildConflictGraph [] dup_student [''Math'']
      = Inr ([\<lparr>name = ''Math'', conflicts = [''Math''], slot = None, color = None\<rparr>], [(''Math'', 0)])
    \<and> \<not> no_self_conflict
        [\<lparr>name = ''Math'', conflicts = [''Math''], slot = None, color = None\<rparr>] [(''Math'', 0)]"
  by code_simp

section \<open>Results on the greedy colorer\<close>

text \<open>
  Claim C9. For the students \<open>S1: Math, Physics\<close> and \<open>S2: Physics, Chemistry\<close> and the
  universe \<open>[Math, Physics, Chemistry]\<close> the builder links exactly Math with Physics and
  Physics with Chemistry, and the greedy colorer, under a comparison that puts
  \<open>Chemistry\<close> before \<open>Math\<close>, returns slot 1 = \<open>[Physics]\<close>, slot 2 = \<open>[Chemistry, Math]\<close>,
  \<open>totalSlots = 2\<close> and \<open>totalConflicts = 2\<close>.
\<close>

theorem scenario_greedy:
  assumes "lc ''Chemistry'' ''Math'' < 0" and "0 < lc ''Math'' ''Chemistry''"
  shows "buildConflictGraph [] example_students [''Math'', ''Physics'', ''Chemistry'']
      = Inr (example_heap, example_graph)
    \<and> greedyColoring lc example_heap example_graph example_students
      = (example_colored, [],
         \<lparr>courses = example_graph,
          slots = [(1, [''Physics'']), (2, [''Chemistry'', ''Math''])],
          totalSlots = 2, totalConflicts = 2, students = example_students,
          conflictDetails = \<lparr>totalPairs = 2,
            conflictPairsList = [[''Math'', ''Physics''], [''Chemistry'', ''Physics'']]\<rparr>\<rparr>)"
proof -
  have rs: "fold reset_course [0, 1, 2] example_heap = example_heap"
    by code_simp
  have srt: "sort_by (greedy_cmp lc example_heap) [0, 1, 2] = [1, 2, 0]"
    using assms by (simp add: sort_by_def greedy_cmp_def example_heap_def)
  have cp: "conflict_pairs example_heap [1, 2, 0] = [''Math|Physics'', ''Chemistry|Physics'']"
    by code_simp
  have asg: "fold assign_course [1, 2, 0] (example_heap, [])
      = (example_colored, [(1, [''Physics'']), (2, [''Chemistry'', ''Math''])])"
    by code_simp
  have ver: "verifySolution example_colored example_graph
      [(1, [''Physics'']), (2, [''Chemistry'', ''Math''])]"
    by code_simp
  have sp: "map (split_on CHR ''|'') [''Math|Physics'', ''Chemistry|Physics'']
      = [[''Math'', ''Physics''], [''Chemistry'', ''Physics'']]"
    by code_simp
  have ms: "map snd example_graph = [0, 1, 2]"
    by code_simp
  have "greedyColoring lc example_heap example_graph example_students
      = (example_colored, [],
         \<lparr>courses = example_graph,
          slots = [(1, [''Physics'']), (2, [''Chemistry'', ''Math''])],
          totalSlots = 2, totalConflicts = 2, students = example_students,
          conflictDetails = \<lparr>totalPairs = 2,
            conflictPairsList = [[''Math'', ''Physics''], [''Chemistry'', ''Physics'']]\<rparr>\<rparr>)"
    unfolding greedyColoring_def Let_def ms rs srt cp asg sp
    using ver by simp
  with example_build show ?thesis by simp
qed

theorem scenario_greedy_witness:
  "js_compare ''Chemistry'' ''Math'' < 0 \<and> 0 < js_compare ''Math'' ''Chemistry''
    \<and> greedyColoring js_compare example_heap example_graph example_students
      = (example_colored, [],
         \<lparr>courses = example_graph,
          slots = [(1, [''Physics'']), (2, [''Chemistry'', ''Math''])],
          totalSlots = 2, totalConflicts = 2, students = example_students,
          conflictDetails = \<lparr>totalPairs = 2,
            conflictPairsList = [[''Math'', ''Physics''], [''Chemistry'', ''Physics'']]\<rparr>\<rparr>)"
proof -
  have a: "js_compare ''Chemistry'' ''Math'' < 0" by code_simp
  have b: "0 < js_compare ''Math'' ''Chemistry''" by code_simp
  from scenario_greedy [OF a b] a b show ?thesis by simp
qed

text \<open>
  Claim C4 as stated: when the verifier rejects the coloring, the greedy colorer does not
  return a normal result. It fails on a graph that is not symmetric (\<open>A\<close> lists \<open>B\<close>, \<open>B\<close>
  lists nothing): both courses land in slot 1, the verifier rejects the slot, and the
  colorer still returns the result, having written one line to the error console.
\<close>

theorem greedy_failed_check_counterexample:
  "greedyColoring js_compare asym_heap asym_graph [] = (asym_colored, [CriticalError], asym_result)
    \<and> \<not> verifySolution asym_colored (courses asym_result) (slots asym_result)"
  by code_simp

text \<open>
  Claim C4, amended. The greedy colorer always returns its result; the error console
  holds the critical error line exactly when the verifier rejects the returned coloring,
  and is empty otherwise.
\<close>

theorem greedy_reports_failed_check:
  "greedyColoring lc h g studs = (h', out, r) \<Longrightarrow>
    out = (if verifySolution h' (courses r) (slots r) then [] else [CriticalError])"
  by (auto simp: greedyColoring_def Let_def verifySolution_def split: if_splits prod.splits)

theorem greedy_reports_failed_check_witness:
  "greedyColoring js_compare asym_heap asym_graph [] = (asym_colored, [CriticalError], asym_result)
    \<and> [CriticalError] =
      (if verifySolution asym_colored (courses asym_result) (slots asym_result) then []
       else [CriticalError])"
proof -
  have e: "greedyColoring js_compare asym_heap asym_graph [] = (asym_colored, [CriticalError], asym_result)"
    by code_simp
  from greedy_reports_failed_check [OF e] e show ?thesis by simp
qed

text \<open>
  Claim C7. The claim says that \<open>totalConflicts\<close> is the number of distinct unordered
  conflict pairs. The colorers count the distinct keys \<open>a|b\<close>, and two different pairs
  can have one key when a name contains the separator: with the courses \<open>A\<close>, \<open>B|C\<close>,
  \<open>A|B\<close>, \<open>C\<close> and the conflicts \<open>A\<close> with \<open>B|C\<close> and \<open>A|B\<close> with \<open>C\<close> there are two
  unordered pairs, and both colorers report one.
\<close>

theorem totalConflicts_pipe_names:
  "buildConflictGraph [] bar_students [''A'', ''B|C'', ''A|B'', ''C''] = Inr (bar_heap, bar_graph)
    \<and> symmetric_graph bar_heap bar_graph
    \<and> unordered_pair_count bar_heap bar_graph = 2
    \<and> totalConflicts (snd (snd (greedyColoring js_compare bar_heap bar_graph bar_students))) = 1
    \<and> (case snd (dsaturColoring js_compare bar_heap bar_graph bar_students) of
          Inl e \<Rightarrow> False | Inr r \<Rightarrow> totalConflicts r = 1)"
  by code_simp

section \<open>Lemmas on the colorers\<close>

declare find_slot.simps [simp del] first_free.simps [simp del] dsatur_loop.simps [simp del]

lemma set_update_cases:
  "(k', v') \<in> set (AList.update k v al) \<Longrightarrow> (k', v') \<in> set al \<or> (k' = k \<and> v' = v)"
  by (induction al) (auto split: if_splits)

lemma forEach_state:
  assumes "P s"
    and "\<And>x t t'. x \<in> set xs \<Longrightarrow> P t \<Longrightarrow> f x t = Inr t' \<Longrightarrow> P t'"
  shows "case forEach f xs s of Inl (e, s') \<Rightarrow> P s' | Inr s' \<Rightarrow> P s'"
  using assms
proof (induction xs arbitrary: s)
  case Nil
  then show ?case by simp
next
  case (Cons x xs)
  show ?case
  proof (cases "f x s")
    case (Inl e)
    then show ?thesis using Cons.prems(1) by simp
  next
    case (Inr t)
    then have "P t" using Cons.prems by (metis list.set_intros(1))
    then have "case forEach f xs t of Inl (e, s') \<Rightarrow> P s' | Inr s' \<Rightarrow> P s'"
      by (rule Cons.IH) (use Cons.prems(2) in auto)
    then show ?thesis using Inr by simp
  qed
qed

lemma copy_course_fresh:
  assumes "fresh_from n h st"
  shows "fresh_from n h (copy_course e st)"
proof -
  obtain hh cs where st: "st = (hh, cs)" by (cases st)
  obtain nm r where e: "e = (nm, r)" by (cases e)
  have a: "n \<le> length hh" "take n hh = take n h" "\<forall>(k, r) \<in> set cs. n \<le> r \<and> r < length hh"
    using assms by (auto simp: fresh_from_def st)
  have "\<forall>(k, r') \<in> set (AList.update nm (length hh) cs). n \<le> r' \<and> r' < Suc (length hh)"
    using a(1,3) by (auto dest!: set_update_cases)
  then show ?thesis
    using a(1,2) by (simp add: copy_course_def st e fresh_from_def)
qed

lemma fold_copy_course_fresh:
  "fresh_from n h st \<Longrightarrow> fresh_from n h (fold copy_course g st)"
  by (induction g arbitrary: st) (simp_all add: copy_course_fresh)

lemma place_course_frame:
  assumes "frame_ok n h m st" and "\<forall>(k, r) \<in> set cs. n \<le> r"
    and "place_course cs e st = Inr st'"
  shows "frame_ok n h m st'"
proof -
  obtain hh sl where st: "st = (hh, sl)" by (cases st)
  obtain nm col where e: "e = (nm, col)" by (cases e)
  from assms(3) obtain r where r: "map_of cs nm = Some r"
    by (auto simp: place_course_def st e Let_def split: option.splits)
  then have "(nm, r) \<in> set cs" by (rule map_of_SomeD)
  then have "n \<le> r" using assms(2) by auto
  then show ?thesis
    using assms(1,3) r by (auto simp: place_course_def st e Let_def frame_ok_def)
qed

lemma conflicts_has_cf: "conflicts_has h g a b \<longleftrightarrow> b \<in> set (cf_of h g a)"
  by (simp add: conflicts_has_def cf_of_def split: option.splits)

lemma find_slot_spec:
  "s0 \<le> find_slot cfl sl s0 \<and> \<not> has_conflict cfl sl (find_slot cfl sl s0) \<and>
    (\<forall>t. s0 \<le> t \<and> t < find_slot cfl sl s0 \<longrightarrow> has_conflict cfl sl t)"
proof (induction cfl sl s0 rule: find_slot.induct)
  case (1 cfl sl s)
  show ?case
  proof (cases "has_conflict cfl sl s")
    case False
    then have "find_slot cfl sl s = s" by (subst find_slot.simps) simp
    with False show ?thesis by auto
  next
    case True
    then have eq: "find_slot cfl sl s = find_slot cfl sl (Suc s)"
      by (subst find_slot.simps) simp
    from "1.IH" [OF True] have ih:
      "Suc s \<le> find_slot cfl sl (Suc s)"
      "\<not> has_conflict cfl sl (find_slot cfl sl (Suc s))"
      "\<forall>t. Suc s \<le> t \<and> t < find_slot cfl sl (Suc s) \<longrightarrow> has_conflict cfl sl t"
      by simp_all
    have "\<forall>t. s \<le> t \<and> t < find_slot cfl sl (Suc s) \<longrightarrow> has_conflict cfl sl t"
    proof (intro allI impI)
      fix t assume t: "s \<le> t \<and> t < find_slot cfl sl (Suc s)"
      show "has_conflict cfl sl t"
      proof (cases "t = s")
        case True
        then show ?thesis using \<open>has_conflict cfl sl s\<close> by simp
      next
        case False
        then have "Suc s \<le> t" using t by simp
        then show ?thesis using ih(3) t by simp
      qed
    qed
    then show ?thesis
      unfolding eq using ih(1,2) by simp
  qed
qed

lemma first_free_spec:
  "c0 \<le> first_free used c0 \<and> first_free used c0 \<notin> set used \<and>
    (\<forall>t. c0 \<le> t \<and> t < first_free used c0 \<longrightarrow> t \<in> set used)"
proof (induction used c0 rule: first_free.induct)
  case (1 used c)
  show ?case
  proof (cases "c \<in> set used")
    case False
    then have "first_free used c = c" by (subst first_free.simps) simp
    with False show ?thesis by auto
  next
    case True
    then have eq: "first_free used c = first_free used (Suc c)"
      by (subst first_free.simps) simp
    from "1.IH" [OF True] have ih:
      "Suc c \<le> first_free used (Suc c)"
      "first_free used (Suc c) \<notin> set used"
      "\<forall>t. Suc c \<le> t \<and> t < first_free used (Suc c) \<longrightarrow> t \<in> set used"
      by simp_all
    have "\<forall>t. c \<le> t \<and> t < first_free used (Suc c) \<longrightarrow> t \<in> set used"
    proof (intro allI impI)
      fix t assume t: "c \<le> t \<and> t < first_free used (Suc c)"
      show "t \<in> set used"
      proof (cases "t = c")
        case True
        then show ?thesis using \<open>c \<in> set used\<close> by simp
      next
        case False
        then have "Suc c \<le> t" using t by simp
        then show ?thesis using ih(3) t by simp
      qed
    qed
    then show ?thesis
      unfolding eq using ih(1,2) by simp
  qed
qed

lemma map_of_slot_push:
  "map_of (slot_push sl s nm) =
    (map_of sl)(s \<mapsto> (case map_of sl s of None \<Rightarrow> [nm] | Some ns \<Rightarrow> ns @ [nm]))"
  by (simp add: slot_push_def update_conv' split: option.splits)

lemma distinct_slot_push:
  "distinct (map fst sl) \<Longrightarrow> distinct (map fst (slot_push sl s nm))"
  by (simp add: slot_push_def distinct_update split: option.splits)

lemma represents_push:
  assumes rep: "represents sl col P" and new: "nm \<notin> set P"
    and col': "col' nm = Some s" and same: "\<forall>a \<in> set P. col' a = col a"
  shows "represents (slot_push sl s nm) col' (P @ [nm])"
proof -
  have d: "distinct (map fst sl)"
    and m: "\<And>t. map_of sl t =
      (if \<exists>a \<in> set P. col a = Some t then Some (filter (\<lambda>a. col a = Some t) P) else None)"
    using rep by (simp_all add: represents_def)
  have f: "filter (\<lambda>a. col' a = Some t) P = filter (\<lambda>a. col a = Some t) P" for t
    using same by (auto intro: filter_cong)
  have ex: "(\<exists>a \<in> set P. col' a = Some t) = (\<exists>a \<in> set P. col a = Some t)" for t
    using same by auto
  have "map_of (slot_push sl s nm) t =
      (if \<exists>a \<in> set (P @ [nm]). col' a = Some t
       then Some (filter (\<lambda>a. col' a = Some t) (P @ [nm])) else None)" for t
  proof (cases "t = s")
    case True
    show ?thesis
      by (simp add: map_of_slot_push True col' f m ex)
  next
    case False
    then show ?thesis
      by (simp add: map_of_slot_push col' f m ex)
  qed
  then show ?thesis
    using d by (simp add: represents_def distinct_slot_push)
qed

lemma has_conflict_represents:
  assumes "represents sl col P"
  shows "has_conflict cfl sl t \<longleftrightarrow> (\<exists>a \<in> set P. col a = Some t \<and> a \<in> set cfl)"
proof -
  have m: "map_of sl t =
      (if \<exists>a \<in> set P. col a = Some t then Some (filter (\<lambda>a. col a = Some t) P) else None)"
    using assms by (simp add: represents_def)
  show ?thesis
    by (auto simp: has_conflict_def m list_ex_iff)
qed

lemma extend_closed:
  assumes "closed_colors col" and "col v = None" and "1 \<le> c"
    and "\<forall>t. 1 \<le> t \<and> t < c \<longrightarrow> (\<exists>b. col b = Some t)"
  shows "closed_colors (col(v \<mapsto> c))"
  unfolding closed_colors_def
proof (intro allI impI conjI)
  fix a s assume a: "(col(v \<mapsto> c)) a = Some s"
  have old: "1 \<le> s \<and> (\<forall>t. 1 \<le> t \<and> t < s \<longrightarrow> (\<exists>b. col b = Some t))"
  proof (cases "a = v")
    case True
    then have "s = c" using a by simp
    then show ?thesis using assms(3,4) by simp
  next
    case False
    then have "col a = Some s" using a by simp
    then show ?thesis
      using assms(1) unfolding closed_colors_def by blast
  qed
  then show "1 \<le> s" by simp
  fix t assume t: "1 \<le> t \<and> t < s"
  with old obtain b where b: "col b = Some t" by blast
  then have "b \<noteq> v" using assms(2) by auto
  then have "(col(v \<mapsto> c)) b = Some t" using b by simp
  then show "\<exists>b. (col(v \<mapsto> c)) b = Some t" ..
qed

lemma extend_proper:
  assumes "proper_coloring cf col" and "col v = None"
    and "\<forall>b. col b = Some c \<longrightarrow> b \<notin> set (cf v)"
    and "\<forall>a. col a = Some c \<and> v \<in> set (cf a) \<longrightarrow> a \<in> set (cf v)"
  shows "proper_coloring cf (col(v \<mapsto> c))"
  unfolding proper_coloring_def
proof (intro allI impI)
  fix a b s
  assume h: "a \<noteq> b \<and> (col(v \<mapsto> c)) a = Some s \<and> (col(v \<mapsto> c)) b = Some s"
  show "b \<notin> set (cf a)"
  proof (cases "a = v")
    case True
    then have "s = c" "col b = Some c" using h by auto
    then show ?thesis using assms(3) True by blast
  next
    case av: False
    show ?thesis
    proof (cases "b = v")
      case True
      then have "s = c" "col a = Some c" using h av by auto
      then show ?thesis using assms(3,4) True by blast
    next
      case False
      then have "col a = Some s" "col b = Some s" using h av by auto
      then show ?thesis using assms(1) h by (auto simp: proper_coloring_def)
    qed
  qed
qed

lemma greedy_choice:
  assumes rep: "represents sl col P" and dom: "\<forall>a. col a \<noteq> None \<longleftrightarrow> a \<in> set P"
    and new: "nm \<notin> set P" and s: "s = find_slot cfl sl 1"
  shows "represents (slot_push sl s nm) (col(nm \<mapsto> s)) (P @ [nm])"
    and "closed_colors col \<Longrightarrow> closed_colors (col(nm \<mapsto> s))"
    and "\<forall>b. col b = Some s \<longrightarrow> b \<notin> set cfl"
proof -
  have none: "col nm = None" using dom new by blast
  have hc: "has_conflict cfl sl t \<longleftrightarrow> (\<exists>a \<in> set P. col a = Some t \<and> a \<in> set cfl)" for t
    by (rule has_conflict_represents [OF rep])
  have fs: "1 \<le> s" "\<not> has_conflict cfl sl s" "\<forall>t. 1 \<le> t \<and> t < s \<longrightarrow> has_conflict cfl sl t"
    using find_slot_spec [of 1 cfl sl] s by simp_all
  show "represents (slot_push sl s nm) (col(nm \<mapsto> s)) (P @ [nm])"
    by (rule represents_push [OF rep new]) (use new in auto)
  show "\<forall>b. col b = Some s \<longrightarrow> b \<notin> set cfl"
  proof (intro allI impI)
    fix b assume b: "col b = Some s"
    then have "b \<in> set P" using dom by auto
    then show "b \<notin> set cfl" using fs(2) hc b by blast
  qed
  show "closed_colors (col(nm \<mapsto> s))" if "closed_colors col"
  proof (rule extend_closed [OF that none fs(1)])
    show "\<forall>t. 1 \<le> t \<and> t < s \<longrightarrow> (\<exists>b. col b = Some t)"
      using fs(3) hc by blast
  qed
qed

lemma pairs_distinct: "distinct xs \<Longrightarrow> (a, b) \<in> set (pairs xs) \<Longrightarrow> a \<noteq> b"
proof (induction xs)
  case Nil
  then show ?case by simp
next
  case (Cons x xs)
  from Cons.prems(2) consider "a = x" "b \<in> set xs" | "(a, b) \<in> set (pairs xs)"
    by auto
  then show ?case
  proof cases
    case 1
    then show ?thesis using Cons.prems(1) by auto
  next
    case 2
    then show ?thesis using Cons.IH Cons.prems(1) by simp
  qed
qed

lemma represents_entry:
  assumes "represents sl col P" and "(s, ns) \<in> set sl"
  shows "ns = filter (\<lambda>a. col a = Some s) P"
proof -
  have d: "distinct (map fst sl)"
    using assms(1) by (simp add: represents_def)
  have "map_of sl s = Some ns"
    using d assms(2) by (rule map_of_is_SomeI)
  moreover have "map_of sl s =
      (if \<exists>nm \<in> set P. col nm = Some s then Some (filter (\<lambda>nm. col nm = Some s) P) else None)"
    using assms(1) by (simp add: represents_def)
  ultimately show ?thesis
    by (simp split: if_splits)
qed

lemma verify_represents:
  assumes rep: "represents sl col P" and dP: "distinct P"
    and pr: "proper_coloring (cf_of h g) col"
  shows "verifySolution h g sl"
  unfolding verifySolution_def list_all_iff
proof (intro ballI, clarify)
  fix s ns a b
  assume e: "(s, ns) \<in> set sl" and p: "(a, b) \<in> set (pairs ns)"
    and c: "conflicts_has h g a b \<or> conflicts_has h g b a"
  have ns: "ns = filter (\<lambda>a. col a = Some s) P"
    by (rule represents_entry [OF rep e])
  then have "distinct ns" using dP by simp
  then have ne: "a \<noteq> b" using p by (rule pairs_distinct)
  have "a \<in> set ns" "b \<in> set ns" using set_pairs_subset [OF p] by simp_all
  then have "col a = Some s" "col b = Some s" using ns by auto
  then have "b \<notin> set (cf_of h g a)" "a \<notin> set (cf_of h g b)"
    using pr ne by (auto simp: proper_coloring_def)
  then show False using c by (simp add: conflicts_has_cf)
qed

lemma downward_closed_interval:
  fixes S :: "nat set"
  assumes "finite S" and "\<forall>s \<in> S. 1 \<le> s \<and> (\<forall>t. 1 \<le> t \<and> t < s \<longrightarrow> t \<in> S)"
  shows "S = {1..card S}"
proof (cases "S = {}")
  case True
  then show ?thesis by simp
next
  case False
  define m where "m = Max S"
  have mS: "m \<in> S" using assms(1) False by (simp add: m_def)
  have "S = {1..m}"
  proof (rule set_eqI)
    fix x
    show "x \<in> S \<longleftrightarrow> x \<in> {1..m}"
    proof
      assume xS: "x \<in> S"
      then have "1 \<le> x" using assms(2) by blast
      moreover have "x \<le> m" unfolding m_def using assms(1) xS by (rule Max_ge)
      ultimately show "x \<in> {1..m}" by simp
    next
      assume x: "x \<in> {1..m}"
      show "x \<in> S"
      proof (cases "x = m")
        case True
        then show ?thesis using mS by simp
      next
        case False
        then have "1 \<le> x \<and> x < m" using x by auto
        then show ?thesis using assms(2) mS by blast
      qed
    qed
  qed
  then show ?thesis by simp
qed

lemma represents_keys:
  assumes "represents sl col P"
  shows "set (map fst sl) = {s. \<exists>a \<in> set P. col a = Some s}"
proof -
  have "s \<in> set (map fst sl) \<longleftrightarrow> (\<exists>a \<in> set P. col a = Some s)" for s
  proof -
    have "s \<in> set (map fst sl) \<longleftrightarrow> map_of sl s \<noteq> None"
      by (simp add: map_of_eq_None_iff)
    also have "\<dots> \<longleftrightarrow> (\<exists>a \<in> set P. col a = Some s)"
      using assms by (simp add: represents_def)
    finally show ?thesis .
  qed
  then show ?thesis by blast
qed

lemma represents_contiguous:
  assumes rep: "represents sl col P" and dom: "\<forall>a. col a \<noteq> None \<longleftrightarrow> a \<in> set P"
    and cl: "closed_colors col"
  shows "set (map fst sl) = {1..length sl}"
proof -
  let ?S = "set (map fst sl)"
  have "(\<exists>a \<in> set P. col a = Some s) \<longleftrightarrow> (\<exists>a. col a = Some s)" for s
    using dom by force
  then have S: "?S = {s. \<exists>a. col a = Some s}"
    using represents_keys [OF rep] by simp
  have "\<forall>s \<in> ?S. 1 \<le> s \<and> (\<forall>t. 1 \<le> t \<and> t < s \<longrightarrow> t \<in> ?S)"
    unfolding S using cl by (simp add: closed_colors_def) blast
  then have "?S = {1..card ?S}"
    by (intro downward_closed_interval) simp_all
  moreover have "card ?S = length sl"
  proof -
    have "distinct (map fst sl)" using rep by (simp add: represents_def)
    then have "card (set (map fst sl)) = length (map fst sl)" by (rule distinct_card)
    then show ?thesis by simp
  qed
  ultimately show ?thesis by simp
qed

lemma clique_bound:
  assumes rep: "represents sl col P" and dom: "\<forall>a. col a \<noteq> None \<longleftrightarrow> a \<in> set P"
    and pr: "proper_coloring cf col"
    and K: "K \<subseteq> set P" and cq: "\<forall>a \<in> K. \<forall>b \<in> K. a \<noteq> b \<longrightarrow> b \<in> set (cf a)"
  shows "card K \<le> length sl"
proof -
  have fin: "finite K" using K by (rule finite_subset) simp
  have inj: "inj_on col K"
  proof (rule inj_onI)
    fix a b assume ab: "a \<in> K" "b \<in> K" "col a = col b"
    show "a = b"
    proof (rule ccontr)
      assume ne: "a \<noteq> b"
      obtain s where "col a = Some s" using dom K ab(1) by blast
      then have "b \<notin> set (cf a)" using pr ne ab(3) by (auto simp: proper_coloring_def)
      then show False using cq ab ne by blast
    qed
  qed
  have "col ` K \<subseteq> Some ` set (map fst sl)"
  proof
    fix x assume "x \<in> col ` K"
    then obtain a where a: "a \<in> K" "x = col a" by blast
    then obtain s where s: "col a = Some s" using dom K by blast
    then have "s \<in> set (map fst sl)"
      using represents_keys [OF rep] a(1) K by blast
    then show "x \<in> Some ` set (map fst sl)" using a(2) s by simp
  qed
  then have "card (col ` K) \<le> card (Some ` set (map fst sl))"
    by (intro card_mono) simp_all
  also have "\<dots> \<le> card (set (map fst sl))"
    by (rule card_image_le) simp
  also have "\<dots> \<le> length sl"
    using card_length [of "map fst sl"] by simp
  finally show ?thesis using inj by (simp add: card_image)
qed

lemma write_fields:
  assumes wf: "wf_graph h g" and e: "map_of g nm = Some r"
    and h': "h' = h[r := (h ! r)\<lparr>slot := x, color := y\<rparr>]"
  shows "wf_graph h' g" and "cf_of h' g = cf_of h g" and "col_of h' g = (col_of h g)(nm := x)"
    and "paint_of h' g = (paint_of h g)(nm := y)" and "length h' = length h"
proof -
  have lt: "r < length h" using wf e by (simp add: wf_graph_iff)
  have nm: "name (h' ! q) = name (h ! q)" and cf: "conflicts (h' ! q) = conflicts (h ! q)" for q
    using lt by (simp_all add: h' nth_list_update)
  show len: "length h' = length h" by (simp add: h')
  show "wf_graph h' g"
    using wf by (simp add: wf_graph_iff nm len)
  show "cf_of h' g = cf_of h g"
    by (rule ext) (simp add: cf_of_def cf split: option.splits)
  have other: "h' ! q = h ! q" if "q \<noteq> r" for q
    using that by (simp add: h')
  have key: "q = r \<longleftrightarrow> a = nm" if "map_of g a = Some q" for a q
  proof
    assume "q = r"
    then have "map_of g a = Some r" using that by simp
    then show "a = nm" using e by (rule wf_graph_inj [OF wf])
  next
    assume "a = nm"
    then show "q = r" using that e by simp
  qed
  show "col_of h' g = (col_of h g)(nm := x)"
  proof (rule ext)
    fix a show "col_of h' g a = ((col_of h g)(nm := x)) a"
    proof (cases "map_of g a")
      case None
      then show ?thesis using e by (auto simp: col_of_def)
    next
      case (Some q)
      show ?thesis
      proof (cases "a = nm")
        case True
        then show ?thesis using e lt by (simp add: col_of_def h')
      next
        case False
        then have "q \<noteq> r" using key [OF Some] by simp
        then show ?thesis using False Some by (simp add: col_of_def other)
      qed
    qed
  qed
  show "paint_of h' g = (paint_of h g)(nm := y)"
  proof (rule ext)
    fix a show "paint_of h' g a = ((paint_of h g)(nm := y)) a"
    proof (cases "map_of g a")
      case None
      then show ?thesis using e by (auto simp: paint_of_def)
    next
      case (Some q)
      show ?thesis
      proof (cases "a = nm")
        case True
        then show ?thesis using e lt by (simp add: paint_of_def h')
      next
        case False
        then have "q \<noteq> r" using key [OF Some] by simp
        then show ?thesis using False Some by (simp add: paint_of_def other)
      qed
    qed
  qed
qed

lemma wf_graph_entry:
  "wf_graph h g \<Longrightarrow> (k, r) \<in> set g \<Longrightarrow> map_of g k = Some r \<and> r < length h \<and> name (h ! r) = k"
  by (simp add: wf_graph_iff)

lemma fold_reset_course:
  assumes "wf_graph h g" and "set es \<subseteq> set g"
  shows "wf_graph (fold reset_course (map snd es) h) g
    \<and> cf_of (fold reset_course (map snd es) h) g = cf_of h g
    \<and> (\<forall>a. col_of (fold reset_course (map snd es) h) g a =
          (if a \<in> set (map fst es) then None else col_of h g a))
    \<and> (\<forall>a. paint_of (fold reset_course (map snd es) h) g a =
          (if a \<in> set (map fst es) then None else paint_of h g a))"
  using assms
proof (induction es arbitrary: h)
  case Nil
  then show ?case by simp
next
  case (Cons e es)
  obtain k r where e: "e = (k, r)" by (cases e)
  have m: "map_of g k = Some r"
    using Cons.prems e wf_graph_entry [of h g k r] by simp
  define h1 where "h1 = reset_course r h"
  have h1: "h1 = h[r := (h ! r)\<lparr>slot := None, color := None\<rparr>]"
    by (simp add: h1_def reset_course_def)
  note w = write_fields [OF Cons.prems(1) m h1]
  have ih: "wf_graph (fold reset_course (map snd es) h1) g
    \<and> cf_of (fold reset_course (map snd es) h1) g = cf_of h1 g
    \<and> (\<forall>a. col_of (fold reset_course (map snd es) h1) g a =
          (if a \<in> set (map fst es) then None else col_of h1 g a))
    \<and> (\<forall>a. paint_of (fold reset_course (map snd es) h1) g a =
          (if a \<in> set (map fst es) then None else paint_of h1 g a))"
    by (rule Cons.IH [OF w(1)]) (use Cons.prems(2) in simp)
  have f: "fold reset_course (map snd (e # es)) h = fold reset_course (map snd es) h1"
    by (simp add: e h1_def)
  show ?case
    unfolding f using ih by (simp add: w(2,3,4) e)
qed

lemma assign_course_inv:
  assumes inv: "coloring_inv symm cf g h sl P" and e: "(nm, r) \<in> set g" and new: "nm \<notin> set P"
    and sg: "symm \<longrightarrow> symmetric_cf cf g"
  shows "case assign_course r (h, sl) of (h', sl') \<Rightarrow> coloring_inv symm cf g h' sl' (P @ [nm])"
proof -
  let ?col = "col_of h g"
  have wf: "wf_graph h g" and cf: "cf_of h g = cf" and dP: "distinct P"
    and PK: "set P \<subseteq> set (map fst g)" and rep: "represents sl ?col P"
    and dom: "\<forall>a. ?col a \<noteq> None \<longleftrightarrow> a \<in> set P" and cl: "closed_colors ?col"
    and pr: "symm \<longrightarrow> proper_coloring cf ?col"
    and pt: "\<forall>a. paint_of h g a = (case ?col a of None \<Rightarrow> None | Some s \<Rightarrow> slot_color s)"
    using inv by (simp_all add: coloring_inv_def)
  have m: "map_of g nm = Some r" and nm: "name (h ! r) = nm"
    using wf_graph_entry [OF wf e] by simp_all
  have cfl: "conflicts (h ! r) = cf nm"
    using cf m by (auto simp: cf_of_def)
  define s where "s = find_slot (cf nm) sl 1"
  define h' where "h' = h[r := (h ! r)\<lparr>slot := Some s, color := slot_color s\<rparr>]"
  have eq: "assign_course r (h, sl) = (h', slot_push sl s nm)"
    by (simp add: assign_course_def Let_def cfl nm s_def h'_def)
  note w = write_fields [OF wf m h'_def]
  have col': "col_of h' g = ?col(nm \<mapsto> s)" by (rule w(3))
  note gc = greedy_choice [OF rep dom new s_def]
  have none: "?col nm = None" using dom new by blast
  have "symm \<longrightarrow> proper_coloring cf (?col(nm \<mapsto> s))"
  proof
    assume sy: symm
    then have p: "proper_coloring cf ?col" using pr by simp
    have sc: "symmetric_cf cf g" using sg sy by simp
    have k: "nm \<in> set (map fst g)" using e by force
    show "proper_coloring cf (?col(nm \<mapsto> s))"
    proof (rule extend_proper [OF p none gc(3)], intro allI impI)
      fix a assume a: "?col a = Some s \<and> nm \<in> set (cf a)"
      then have "a \<in> set P" using dom by auto
      then have "a \<in> set (map fst g)" using PK by blast
      then have "(nm \<in> set (cf a)) = (a \<in> set (cf nm))"
        using sc k unfolding symmetric_cf_def by blast
      then show "a \<in> set (cf nm)" using a by simp
    qed
  qed
  moreover have "\<forall>a. (?col(nm \<mapsto> s)) a \<noteq> None \<longleftrightarrow> a \<in> set (P @ [nm])"
    using dom by auto
  moreover have "\<forall>a. paint_of h' g a =
      (case (?col(nm \<mapsto> s)) a of None \<Rightarrow> None | Some s \<Rightarrow> slot_color s)"
    using pt by (simp add: w(4))
  moreover have "set (P @ [nm]) \<subseteq> set (map fst g)"
    using PK e by force
  ultimately have "coloring_inv symm cf g h' (slot_push sl s nm) (P @ [nm])"
    unfolding coloring_inv_def col'
    using w(1) w(2) cf dP new gc(1) gc(2) [OF cl] by simp
  then show ?thesis by (simp add: eq)
qed

lemma fold_assign_course_inv:
  assumes "coloring_inv symm cf g h sl P" and "set es \<subseteq> set g" and "distinct (map fst es)"
    and "set (map fst es) \<inter> set P = {}" and sg: "symm \<longrightarrow> symmetric_cf cf g"
  shows "case fold assign_course (map snd es) (h, sl) of
     (h', sl') \<Rightarrow> coloring_inv symm cf g h' sl' (P @ map fst es)"
  using assms(1-4)
proof (induction es arbitrary: h sl P)
  case Nil
  then show ?case by simp
next
  case (Cons e es)
  obtain nm r where e: "e = (nm, r)" by (cases e)
  obtain h1 sl1 where a: "assign_course r (h, sl) = (h1, sl1)"
    by (cases "assign_course r (h, sl)")
  have "(nm, r) \<in> set g" "nm \<notin> set P"
    using Cons.prems e by auto
  from assign_course_inv [OF Cons.prems(1) this sg]
  have inv1: "coloring_inv symm cf g h1 sl1 (P @ [nm])"
    by (simp add: a)
  have "case fold assign_course (map snd es) (h1, sl1) of
     (h', sl') \<Rightarrow> coloring_inv symm cf g h' sl' ((P @ [nm]) @ map fst es)"
    by (rule Cons.IH [OF inv1]) (use Cons.prems e in auto)
  then show ?case
    by (simp add: e a)
qed

lemma insert_by_map:
  "insert_by cmp (f x) (map f ys) = map f (insert_by (\<lambda>a b. cmp (f a) (f b)) x ys)"
  by (induction ys) simp_all

lemma sort_by_map:
  "sort_by cmp (map f xs) = map f (sort_by (\<lambda>a b. cmp (f a) (f b)) xs)"
  by (induction xs) (simp_all add: sort_by_def insert_by_map)

lemma distinct_map_insert_by:
  "distinct (map f (insert_by cmp x xs)) \<longleftrightarrow> f x \<notin> f ` set xs \<and> distinct (map f xs)"
  by (induction xs) (auto simp: set_insert_by)

lemma distinct_map_sort_by:
  "distinct (map f (sort_by cmp xs)) \<longleftrightarrow> distinct (map f xs)"
proof (induction xs)
  case Nil
  then show ?case by (simp add: sort_by_def)
next
  case (Cons x xs)
  have "sort_by cmp (x # xs) = insert_by cmp x (sort_by cmp xs)"
    by (simp add: sort_by_def)
  then show ?case
    using Cons.IH by (simp add: distinct_map_insert_by set_sort_by)
qed

lemma symmetric_graph_cf:
  "symmetric_graph h g \<Longrightarrow> symmetric_cf (cf_of h g) g"
  by (simp add: symmetric_graph_iff symmetric_cf_def conflicts_has_cf)

lemma col_of_no_key: "a \<notin> set (map fst g) \<Longrightarrow> col_of h g a = None"
  by (simp add: col_of_def map_of_eq_None_iff [THEN iffD2])

lemma paint_of_no_key: "a \<notin> set (map fst g) \<Longrightarrow> paint_of h g a = None"
  by (simp add: paint_of_def map_of_eq_None_iff [THEN iffD2])

lemma coloring_inv_start:
  assumes "wf_graph h g" and "\<forall>a. col_of h g a = None" and "\<forall>a. paint_of h g a = None"
  shows "coloring_inv symm (cf_of h g) g h [] []"
  using assms by (simp add: coloring_inv_def represents_def closed_colors_def proper_coloring_def)

lemma greedy_spec:
  assumes wf: "wf_graph h g" and sg: "symm \<longrightarrow> symmetric_graph h g"
    and res: "greedyColoring lc h g studs = (h2, out, r)"
  shows "courses r = g \<and> totalSlots r = length (slots r) \<and>
    (\<exists>P. set P = set (map fst g) \<and> coloring_inv symm (cf_of h g) g h2 (slots r) P)"
proof (cases "g = []")
  case True
  have "coloring_inv symm (cf_of h g) g h [] []"
    by (rule coloring_inv_start [OF wf]) (simp_all add: True col_of_def paint_of_def)
  moreover have "h2 = h" "courses r = g" "slots r = []" "totalSlots r = 0"
    using res True by (auto simp: greedyColoring_def)
  ultimately show ?thesis using True by auto
next
  case False
  define h1 where "h1 = fold reset_course (map snd g) h"
  have rs: "wf_graph h1 g" "cf_of h1 g = cf_of h g"
    "\<forall>a. col_of h1 g a = (if a \<in> set (map fst g) then None else col_of h g a)"
    "\<forall>a. paint_of h1 g a = (if a \<in> set (map fst g) then None else paint_of h g a)"
    using fold_reset_course [OF wf, of g] by (simp_all add: h1_def)
  have "\<forall>a. col_of h1 g a = None" "\<forall>a. paint_of h1 g a = None"
    using rs(3,4) by (simp_all add: col_of_no_key paint_of_no_key)
  then have start: "coloring_inv symm (cf_of h g) g h1 [] []"
    using coloring_inv_start [OF rs(1), of symm] rs(2) by simp
  define es where "es = sort_by (\<lambda>a b. greedy_cmp lc h1 (snd a) (snd b)) g"
  have srt: "sort_by (greedy_cmp lc h1) (map snd g) = map snd es"
    by (simp add: es_def sort_by_map)
  have es: "set es = set g" "distinct (map fst es)"
    using wf by (simp_all add: es_def set_sort_by distinct_map_sort_by wf_graph_iff)
  obtain h2' sl where f: "fold assign_course (map snd es) (h1, []) = (h2', sl)"
    by (cases "fold assign_course (map snd es) (h1, [])")
  have scf: "symm \<longrightarrow> symmetric_cf (cf_of h g) g"
    using sg symmetric_graph_cf by blast
  have "case fold assign_course (map snd es) (h1, []) of
     (h', sl') \<Rightarrow> coloring_inv symm (cf_of h g) g h' sl' ([] @ map fst es)"
    by (rule fold_assign_course_inv [OF start _ es(2) _ scf]) (simp_all add: es(1))
  then have inv: "coloring_inv symm (cf_of h g) g h2' sl (map fst es)"
    by (simp add: f)
  have "greedyColoring lc h g studs =
    (h2', (if \<not> verifySolution h2' g sl then [CriticalError] else []),
     \<lparr>courses = g, slots = sl, totalSlots = length sl,
      totalConflicts = length (conflict_pairs h1 (map snd es)), students = studs,
      conflictDetails = \<lparr>totalPairs = length (conflict_pairs h1 (map snd es)),
        conflictPairsList = map (split_on CHR ''|'') (conflict_pairs h1 (map snd es))\<rparr>\<rparr>)"
    using False by (simp add: greedyColoring_def Let_def h1_def [symmetric] srt f)
  then have "h2 = h2'" "courses r = g" "slots r = sl" "totalSlots r = length sl"
    using res by auto
  moreover have "set (map fst es) = set (map fst g)"
    using es(1) by simp
  ultimately show ?thesis using inv by blast
qed

lemma cf_of_no_key: "a \<notin> set (map fst g) \<Longrightarrow> cf_of h g a = []"
  by (simp add: cf_of_def map_of_eq_None_iff [THEN iffD2])

lemma copy_course_inv:
  assumes inv: "copy_inv h g (hh, cs)" and wf: "wf_graph h g" and e: "(nm, r) \<in> set g"
    and new: "nm \<notin> set (map fst cs)"
  shows "copy_inv h g (copy_course (nm, r) (hh, cs))"
    and "map fst (snd (copy_course (nm, r) (hh, cs))) = map fst cs @ [nm]"
proof -
  have i: "wf_graph hh cs" "length h \<le> length hh" "take (length h) hh = h"
    "\<forall>a. cf_of hh cs a = (if a \<in> set (map fst cs) then cf_of h g a else [])"
    "\<forall>a. col_of hh cs a = None" "\<forall>a. paint_of hh cs a = None"
    using inv by (simp_all add: copy_inv_def)
  have g: "map_of g nm = Some r" "r < length h" "name (h ! r) = nm"
    using wf_graph_entry [OF wf e] by simp_all
  have "hh ! r = take (length h) hh ! r" using g(2) by simp
  then have same: "hh ! r = h ! r" using i(3) by simp
  let ?c = "\<lparr>name = nm, conflicts = conflicts (h ! r), slot = None, color = None\<rparr>"
  let ?hh = "hh @ [?c]" and ?cs = "AList.update nm (length hh) cs"
  have eq: "copy_course (nm, r) (hh, cs) = (?hh, ?cs)"
    by (simp add: copy_course_def same g(3))
  have lk: "\<And>k q. map_of cs k = Some q \<Longrightarrow> q < length hh \<and> name (hh ! q) = k"
    using i(1) by (simp add: wf_graph_iff)
  have cases: "(k = nm \<and> q = length hh) \<or> (k \<noteq> nm \<and> map_of cs k = Some q)"
    if "map_of ?cs k = Some q" for k q
    using that by (auto simp: update_conv' split: if_splits)
  have wf': "wf_graph ?hh ?cs"
    unfolding wf_graph_iff
  proof (intro conjI allI impI)
    show "distinct (map fst ?cs)"
      using i(1) by (simp add: wf_graph_iff distinct_update)
  next
    fix k q assume "map_of ?cs k = Some q"
    then show "q < length ?hh" "name (?hh ! q) = k"
      using cases [of k q] lk [of k q] by (auto simp: nth_append)
  qed
  have keys: "map fst ?cs = map fst cs @ [nm]"
    using new by (simp add: update_keys)
  have cf: "cf_of ?hh ?cs a = (if a \<in> set (map fst ?cs) then cf_of h g a else [])" for a
  proof (cases "a = nm")
    case True
    then show ?thesis
      by (simp add: cf_of_def update_conv' keys g(1))
  next
    case False
    have "cf_of ?hh ?cs a = cf_of hh cs a"
    proof (cases "map_of cs a")
      case None
      then show ?thesis using False by (simp add: cf_of_def update_conv')
    next
      case (Some q)
      then show ?thesis using False lk [OF Some] by (simp add: cf_of_def update_conv' nth_append)
    qed
    then show ?thesis using False i(4) by (simp add: keys)
  qed
  have col: "col_of ?hh ?cs a = None" for a
  proof (cases "a = nm")
    case True
    then show ?thesis by (simp add: col_of_def update_conv')
  next
    case False
    show ?thesis
    proof (cases "map_of cs a")
      case None
      then show ?thesis using False by (simp add: col_of_def update_conv')
    next
      case (Some q)
      have "col_of hh cs a = None" using i(5) by simp
      then show ?thesis using False Some lk [OF Some] by (simp add: col_of_def update_conv' nth_append)
    qed
  qed
  have pt: "paint_of ?hh ?cs a = None" for a
  proof (cases "a = nm")
    case True
    then show ?thesis by (simp add: paint_of_def update_conv')
  next
    case False
    show ?thesis
    proof (cases "map_of cs a")
      case None
      then show ?thesis using False by (simp add: paint_of_def update_conv')
    next
      case (Some q)
      have "paint_of hh cs a = None" using i(6) by simp
      then show ?thesis using False Some lk [OF Some] by (simp add: paint_of_def update_conv' nth_append)
    qed
  qed
  show "copy_inv h g (copy_course (nm, r) (hh, cs))"
    unfolding eq copy_inv_def using wf' i(2,3) cf col pt by simp
  show "map fst (snd (copy_course (nm, r) (hh, cs))) = map fst cs @ [nm]"
    by (simp add: eq keys)
qed

lemma fold_copy_course_inv:
  assumes "copy_inv h g (hh, cs)" and "wf_graph h g" and "set es \<subseteq> set g"
    and "distinct (map fst es)" and "set (map fst es) \<inter> set (map fst cs) = {}"
  shows "copy_inv h g (fold copy_course es (hh, cs))
    \<and> map fst (snd (fold copy_course es (hh, cs))) = map fst cs @ map fst es"
  using assms(1,3,4,5)
proof (induction es arbitrary: hh cs)
  case Nil
  then show ?case by simp
next
  case (Cons e es)
  obtain nm r where e: "e = (nm, r)" by (cases e)
  obtain h1 cs1 where c: "copy_course (nm, r) (hh, cs) = (h1, cs1)"
    by (cases "copy_course (nm, r) (hh, cs)")
  have a: "(nm, r) \<in> set g" "nm \<notin> set (map fst cs)"
    using Cons.prems e by auto
  have inv1: "copy_inv h g (h1, cs1)" and k1: "map fst cs1 = map fst cs @ [nm]"
    using copy_course_inv [OF Cons.prems(1) assms(2) a] by (simp_all add: c)
  have "copy_inv h g (fold copy_course es (h1, cs1))
    \<and> map fst (snd (fold copy_course es (h1, cs1))) = map fst cs1 @ map fst es"
    by (rule Cons.IH [OF inv1]) (use Cons.prems e k1 in auto)
  then show ?case
    by (simp add: e c k1)
qed

lemma copy_courses_spec:
  assumes wf: "wf_graph h g" and f: "fold copy_course g (h, []) = (h1, cs)"
  shows "wf_graph h1 cs" and "map fst cs = map fst g" and "cf_of h1 cs = cf_of h g"
    and "\<forall>a. col_of h1 cs a = None" and "\<forall>a. paint_of h1 cs a = None"
proof -
  have "copy_inv h g (h, [])"
    by (simp add: copy_inv_def wf_graph_def cf_of_def col_of_def paint_of_def)
  from fold_copy_course_inv [OF this wf, of g]
  have inv: "copy_inv h g (h1, cs)" and keys: "map fst cs = map fst g"
    using wf f by (simp_all add: wf_graph_iff)
  show "wf_graph h1 cs" "\<forall>a. col_of h1 cs a = None" "\<forall>a. paint_of h1 cs a = None"
    using inv by (simp_all add: copy_inv_def)
  show "map fst cs = map fst g" by (rule keys)
  have ks: "set (map fst cs) = set (map fst g)" using keys by simp
  have c: "cf_of h1 cs a = (if a \<in> set (map fst cs) then cf_of h g a else [])" for a
    using inv by (simp add: copy_inv_def)
  have "cf_of h1 cs a = cf_of h g a" for a
  proof (cases "a \<in> set (map fst g)")
    case True
    then show ?thesis unfolding c ks by simp
  next
    case False
    then have "cf_of h g a = []" by (rule cf_of_no_key)
    then show ?thesis unfolding c ks using False by simp
  qed
  then show "cf_of h1 cs = cf_of h g" by (rule ext)
qed

lemma color_of_key: "color_of ca a = Some c \<Longrightarrow> a \<in> set (map fst ca)"
proof -
  assume "color_of ca a = Some c"
  then have "map_of ca a \<noteq> None"
    by (auto simp: color_of_def split: option.splits)
  then show ?thesis
    by (simp add: map_of_eq_None_iff)
qed

lemma color_of_fun_upd: "color_of (AList.update v (Some c) ca) = (color_of ca)(v \<mapsto> c)"
  by (rule ext) (simp add: color_of_update)

lemma set_fold_neighbor:
  "set (fold (\<lambda>nb ncs. case color_of ca nb of None \<Rightarrow> ncs | Some c \<Rightarrow> set_add ncs c) cfl acc)
    = set acc \<union> {c. \<exists>nb \<in> set cfl. color_of ca nb = Some c}"
  by (induction cfl arbitrary: acc) (auto simp: set_set_add split: option.splits)

lemma set_neighbor_colors:
  "set (neighbor_colors ca cfl) = {c. \<exists>nb \<in> set cfl. color_of ca nb = Some c}"
  by (simp add: neighbor_colors_def set_fold_neighbor)

lemma init_maps_inv:
  assumes "forEach (init_maps h cs) nms (ca, sat, deg) = Inr (ca', sat', deg')"
    and "\<forall>a. color_of ca a = None" and "distinct (map fst ca)"
  shows "(\<forall>a. color_of ca' a = None) \<and> distinct (map fst ca')
    \<and> set (map fst ca') = set (map fst ca) \<union> set nms"
  using assms
proof (induction nms arbitrary: ca sat deg)
  case Nil
  then show ?case by simp
next
  case (Cons nm nms)
  from Cons.prems(1) obtain r where r: "map_of cs nm = Some r"
    by (auto simp: init_maps_def split: option.splits sum.splits)
  let ?ca = "AList.update nm None ca"
  have f: "forEach (init_maps h cs) nms
      (?ca, AList.update nm [] sat, AList.update nm (length (conflicts (h ! r))) deg)
    = Inr (ca', sat', deg')"
  proof -
    have "init_maps h cs nm (ca, sat, deg) =
        Inr (?ca, AList.update nm [] sat, AList.update nm (length (conflicts (h ! r))) deg)"
      by (simp add: init_maps_def r)
    then show ?thesis using Cons.prems(1) by simp
  qed
  have "\<forall>a. color_of ?ca a = None"
    using Cons.prems(2) by (simp add: color_of_update)
  moreover have "distinct (map fst ?ca)"
    using Cons.prems(3) by (simp add: distinct_update)
  ultimately have "(\<forall>a. color_of ca' a = None) \<and> distinct (map fst ca')
    \<and> set (map fst ca') = set (map fst ?ca) \<union> set nms"
    by (rule Cons.IH [OF f])
  moreover have "set (map fst ?ca) = insert nm (set (map fst ca))"
    using dom_update [of nm None ca] by simp
  ultimately show ?case by simp
qed

lemma dsatur_step_detail:
  assumes "dsatur_step lc h cs degree candidates (ca, sat) = Inr (ca', sat')"
  shows "\<exists>v r. v \<in> set candidates \<and> map_of cs v = Some r \<and>
    ca' = AList.update v (Some (first_free (neighbor_colors ca (conflicts (h ! r))) 1)) ca"
proof -
  obtain v vs where sv: "sort_by (dsatur_cmp lc sat degree) candidates = v # vs"
    using assms by (auto simp: dsatur_step_def split: list.splits)
  then have "v \<in> set (sort_by (dsatur_cmp lc sat degree) candidates)"
    by simp
  then have v: "v \<in> set candidates"
    by (simp add: set_sort_by)
  obtain r where r: "map_of cs v = Some r"
    using assms sv by (auto simp: dsatur_step_def split: option.splits)
  have "ca' = AList.update v (Some (first_free (neighbor_colors ca (conflicts (h ! r))) 1)) ca"
    using assms sv r
    by (auto simp: dsatur_step_def Let_def split: sum.splits)
  with v r show ?thesis by blast
qed

lemma dsatur_step_inv:
  assumes inv: "dsatur_inv symm (cf_of h cs) courseNames ca"
    and sg: "symm \<longrightarrow> symmetric_cf (cf_of h cs) cs"
    and keys: "set courseNames = set (map fst cs)"
    and step: "dsatur_step lc h cs degree (uncolored ca courseNames) (ca, sat) = Inr (ca', sat')"
  shows "dsatur_inv symm (cf_of h cs) courseNames ca'"
proof -
  let ?col = "color_of ca" and ?cf = "cf_of h cs"
  have d: "distinct (map fst ca)" and k: "set (map fst ca) = set courseNames"
    and cl: "closed_colors ?col" and pr: "symm \<longrightarrow> proper_coloring ?cf ?col"
    using inv by (simp_all add: dsatur_inv_def)
  from dsatur_step_detail [OF step] obtain v r where
    v: "v \<in> set (uncolored ca courseNames)" and r: "map_of cs v = Some r"
    and ca': "ca' = AList.update v (Some (first_free (neighbor_colors ca (conflicts (h ! r))) 1)) ca"
    by blast
  define used where "used = neighbor_colors ca (conflicts (h ! r))"
  define c where "c = first_free used 1"
  have ca'': "ca' = AList.update v (Some c) ca" by (simp add: ca' c_def used_def)
  have cfv: "?cf v = conflicts (h ! r)" by (simp add: cf_of_def r)
  have used: "set used = {c. \<exists>nb \<in> set (?cf v). ?col nb = Some c}"
    by (simp add: used_def set_neighbor_colors cfv)
  have ff: "1 \<le> c" "c \<notin> set used" "\<forall>t. 1 \<le> t \<and> t < c \<longrightarrow> t \<in> set used"
    using first_free_spec [of 1 used] by (simp_all add: c_def)
  have vn: "v \<in> set courseNames" and none: "?col v = None"
    using v by (simp_all add: uncolored_def)
  have col': "color_of ca' = ?col(v \<mapsto> c)"
    by (simp add: ca'' color_of_fun_upd)
  have low: "\<forall>t. 1 \<le> t \<and> t < c \<longrightarrow> (\<exists>b. ?col b = Some t)"
    using ff(3) used by blast
  have c1: "closed_colors (?col(v \<mapsto> c))"
    by (rule extend_closed [OF cl none ff(1) low])
  have free: "\<forall>b. ?col b = Some c \<longrightarrow> b \<notin> set (?cf v)"
    using ff(2) used by blast
  have c2: "symm \<longrightarrow> proper_coloring ?cf (?col(v \<mapsto> c))"
  proof
    assume s: symm
    then have p: "proper_coloring ?cf ?col" using pr by simp
    have sc: "symmetric_cf ?cf cs" using sg s by simp
    show "proper_coloring ?cf (?col(v \<mapsto> c))"
    proof (rule extend_proper [OF p none free], intro allI impI)
      fix a assume a: "?col a = Some c \<and> v \<in> set (?cf a)"
      then have "a \<in> set (map fst ca)" using color_of_key by blast
      then have "a \<in> set (map fst cs)" using k keys by simp
      moreover have "v \<in> set (map fst cs)" using vn keys by simp
      ultimately have "(v \<in> set (?cf a)) = (a \<in> set (?cf v))"
        using sc unfolding symmetric_cf_def by blast
      then show "a \<in> set (?cf v)" using a by simp
    qed
  qed
  have "distinct (map fst ca')"
    using d by (simp add: ca'' distinct_update)
  moreover have "set (map fst ca') = set courseNames"
    using dom_update [of v "Some c" ca] k vn by (auto simp: ca'')
  ultimately show ?thesis
    using c1 c2 by (simp add: dsatur_inv_def col')
qed

lemma dsatur_loop_inv:
  assumes "dsatur_inv symm (cf_of h cs) courseNames (fst st)"
    and "symm \<longrightarrow> symmetric_cf (cf_of h cs) cs"
    and "set courseNames = set (map fst cs)"
    and "dsatur_loop lc h cs degree courseNames st = Inr ca"
  shows "dsatur_inv symm (cf_of h cs) courseNames ca \<and> uncolored ca courseNames = []"
  using assms
proof (induction lc h cs degree courseNames st rule: dsatur_loop.induct)
  case (1 lc h cs degree courseNames st)
  show ?case
  proof (cases "uncolored (fst st) courseNames = []")
    case True
    then have "dsatur_loop lc h cs degree courseNames st = Inr (fst st)"
      by (subst dsatur_loop.simps) simp
    then have "ca = fst st" using "1.prems"(4) by simp
    then show ?thesis using True "1.prems"(1) by simp
  next
    case False
    obtain ca0 sat0 where st: "st = (ca0, sat0)" by (cases st)
    have unf: "dsatur_loop lc h cs degree courseNames st =
        (case dsatur_step lc h cs degree (uncolored (fst st) courseNames) st of
           Inl e \<Rightarrow> Inl e
         | Inr st' \<Rightarrow> dsatur_loop lc h cs degree courseNames st')"
      using False by (subst dsatur_loop.simps) (simp add: Let_def)
    then obtain st' where
      s: "dsatur_step lc h cs degree (uncolored (fst st) courseNames) st = Inr st'"
      and l: "dsatur_loop lc h cs degree courseNames st' = Inr ca"
      using "1.prems"(4) by (auto split: sum.splits)
    obtain ca1 sat1 where st': "st' = (ca1, sat1)" by (cases st')
    have "dsatur_inv symm (cf_of h cs) courseNames ca1"
      using dsatur_step_inv [of symm h cs courseNames ca0 lc degree sat0 ca1 sat1]
        "1.prems"(1,2,3) s by (simp add: st st')
    then have i: "dsatur_inv symm (cf_of h cs) courseNames (fst st')"
      by (simp add: st')
    show ?thesis
      by (rule "1.IH" [OF refl _ s i "1.prems"(2,3) l]) (use False in simp)
  qed
qed

lemma place_course_inv:
  assumes inv: "place_inv cf cs ca hh sl P" and c: "color_of ca nm = Some c" "1 \<le> c"
    and new: "nm \<notin> set P"
    and pl: "place_course cs (nm, Some c) (hh, sl) = Inr (hh', sl')"
  shows "place_inv cf cs ca hh' sl' (P @ [nm])"
proof -
  let ?col = "col_of hh cs"
  have wf: "wf_graph hh cs" and cf: "cf_of hh cs = cf" and rep: "represents sl ?col P"
    and col: "\<forall>a. ?col a = (if a \<in> set P then color_of ca a else None)"
    and pt: "\<forall>a. paint_of hh cs a = (case ?col a of None \<Rightarrow> None | Some s \<Rightarrow> slot_color s)"
    using inv by (simp_all add: place_inv_def)
  from pl obtain r where r: "map_of cs nm = Some r"
    by (auto simp: place_course_def Let_def split: option.splits)
  have h': "hh' = hh[r := (hh ! r)\<lparr>slot := Some c, color := slot_color c\<rparr>]"
    and sl': "sl' = slot_push sl c nm"
    using pl r c(2) by (auto simp: place_course_def Let_def)
  note w = write_fields [OF wf r h']
  have col': "col_of hh' cs = ?col(nm \<mapsto> c)" by (rule w(3))
  have "represents (slot_push sl c nm) (?col(nm \<mapsto> c)) (P @ [nm])"
    by (rule represents_push [OF rep new]) (use new in auto)
  moreover have "\<forall>a. (?col(nm \<mapsto> c)) a = (if a \<in> set (P @ [nm]) then color_of ca a else None)"
    using col c(1) by auto
  moreover have "\<forall>a. paint_of hh' cs a =
      (case (?col(nm \<mapsto> c)) a of None \<Rightarrow> None | Some s \<Rightarrow> slot_color s)"
    using pt by (simp add: w(4))
  ultimately show ?thesis
    unfolding place_inv_def col' sl' using w(1,2) cf by simp
qed

lemma forEach_place_course_inv:
  assumes "place_inv cf cs ca hh sl P"
    and "\<forall>e \<in> set es. \<exists>c. snd e = Some c \<and> 1 \<le> c \<and> color_of ca (fst e) = Some c"
    and "distinct (map fst es)" and "set (map fst es) \<inter> set P = {}"
    and "forEach (place_course cs) es (hh, sl) = Inr (h2, sl2)"
  shows "place_inv cf cs ca h2 sl2 (P @ map fst es)"
  using assms
proof (induction es arbitrary: hh sl P)
  case Nil
  then show ?case by simp
next
  case (Cons e es)
  obtain nm c where e: "e = (nm, Some c)" and c: "1 \<le> c" "color_of ca nm = Some c"
    using Cons.prems(2) by (cases e) auto
  from Cons.prems(5) obtain h1 sl1 where
    p: "place_course cs (nm, Some c) (hh, sl) = Inr (h1, sl1)"
    and f: "forEach (place_course cs) es (h1, sl1) = Inr (h2, sl2)"
    by (auto simp: e split: sum.splits)
  have new: "nm \<notin> set P" using Cons.prems(4) e by auto
  have inv1: "place_inv cf cs ca h1 sl1 (P @ [nm])"
    by (rule place_course_inv [OF Cons.prems(1) c(2,1) new p])
  have "place_inv cf cs ca h2 sl2 ((P @ [nm]) @ map fst es)"
    by (rule Cons.IH [OF inv1 _ _ _ f]) (use Cons.prems(2,3,4) e in auto)
  then show ?case by (simp add: e)
qed

lemma dsatur_spec:
  assumes wf: "wf_graph h g" and sg: "symm \<longrightarrow> symmetric_graph h g"
    and res: "dsaturColoring lc h g studs = (h2, Inr r)"
  shows "map fst (courses r) = map fst g \<and> totalSlots r = length (slots r) \<and>
    cf_of h2 (courses r) = cf_of h g \<and>
    (\<exists>P. set P = set (map fst g) \<and> coloring_inv symm (cf_of h g) (courses r) h2 (slots r) P)"
proof -
  obtain h1 cs where f: "fold copy_course g (h, []) = (h1, cs)"
    by (cases "fold copy_course g (h, [])")
  note cp = copy_courses_spec [OF wf f]
  show ?thesis
  proof (cases "cs = []")
    case True
    then have g: "g = []" using cp(2) by simp
    have "h2 = h1" "courses r = cs" "slots r = []" "totalSlots r = 0"
      using res True by (auto simp: dsaturColoring_def f)
    moreover have "coloring_inv symm (cf_of h1 cs) cs h1 [] []"
      by (rule coloring_inv_start [OF cp(1,4,5)])
    ultimately show ?thesis using cp(2,3) g by auto
  next
    case False
    let ?names = "map fst cs"
    from res False obtain ca0 sat0 deg ca sl where
      im: "forEach (init_maps h1 cs) ?names ([], [], []) = Inr (ca0, sat0, deg)"
      and lp: "dsatur_loop lc h1 cs deg ?names (ca0, sat0) = Inr ca"
      and pl: "forEach (place_course cs) ca (h1, []) = Inr (h2, sl)"
      and r: "courses r = cs" "slots r = sl" "totalSlots r = length sl"
      by (auto simp: dsaturColoring_def f Let_def split: sum.splits prod.splits)
    have i0: "(\<forall>a. color_of ca0 a = None) \<and> distinct (map fst ca0)
        \<and> set (map fst ca0) = set (map fst ([] :: color_map)) \<union> set ?names"
      by (rule init_maps_inv [OF im]) (simp_all add: color_of_def)
    then have "color_of ca0 = (\<lambda>a. None)" by auto
    then have d0: "dsatur_inv symm (cf_of h1 cs) ?names (fst (ca0, sat0))"
      using i0 by (simp add: dsatur_inv_def closed_colors_def proper_coloring_def)
    have scf: "symm \<longrightarrow> symmetric_cf (cf_of h1 cs) cs"
      using sg symmetric_graph_cf [of h g] cp(2,3) by (auto simp: symmetric_cf_def)
    have d: "dsatur_inv symm (cf_of h1 cs) ?names ca" and u: "uncolored ca ?names = []"
      using dsatur_loop_inv [OF d0 scf refl lp] by simp_all
    have dk: "distinct (map fst ca)" and ks: "set (map fst ca) = set ?names"
      and cl: "closed_colors (color_of ca)"
      and pr: "symm \<longrightarrow> proper_coloring (cf_of h1 cs) (color_of ca)"
      using d by (simp_all add: dsatur_inv_def)
    have all: "\<forall>e \<in> set ca. \<exists>c. snd e = Some c \<and> 1 \<le> c \<and> color_of ca (fst e) = Some c"
    proof
      fix e assume e: "e \<in> set ca"
      obtain nm col where ec: "e = (nm, col)" by (cases e)
      have "map_of ca nm = Some col"
        using dk e ec by (simp add: map_of_is_SomeI)
      then have co: "color_of ca nm = col" by (simp add: color_of_def)
      have "nm \<in> set ?names" using e ec ks by force
      then have "color_of ca nm \<noteq> None"
        using u by (auto simp: uncolored_def filter_empty_conv)
      then obtain c where c: "col = Some c" using co by auto
      then have "1 \<le> c" using cl co by (auto simp: closed_colors_def)
      then show "\<exists>c. snd e = Some c \<and> 1 \<le> c \<and> color_of ca (fst e) = Some c"
        using c co ec by simp
    qed
    have start: "place_inv (cf_of h1 cs) cs ca h1 [] []"
      using cp(1,4,5) by (simp add: place_inv_def represents_def)
    have "place_inv (cf_of h1 cs) cs ca h2 sl ([] @ map fst ca)"
      by (rule forEach_place_course_inv [OF start all dk _ pl]) simp
    then have pi: "wf_graph h2 cs" "cf_of h2 cs = cf_of h1 cs"
      "represents sl (col_of h2 cs) (map fst ca)"
      "\<forall>a. col_of h2 cs a = (if a \<in> set (map fst ca) then color_of ca a else None)"
      "\<forall>a. paint_of h2 cs a = (case col_of h2 cs a of None \<Rightarrow> None | Some s \<Rightarrow> slot_color s)"
      by (simp_all add: place_inv_def)
    have "col_of h2 cs a = color_of ca a" for a
    proof (cases "a \<in> set (map fst ca)")
      case True
      then show ?thesis using pi(4) by simp
    next
      case False
      then have "color_of ca a = None"
        using color_of_key [of ca a] by (cases "color_of ca a") auto
      then show ?thesis using pi(4) False by simp
    qed
    then have ceq: "col_of h2 cs = color_of ca" by (rule ext)
    have dom: "\<forall>a. col_of h2 cs a \<noteq> None \<longleftrightarrow> a \<in> set (map fst ca)"
    proof
      fix a
      show "col_of h2 cs a \<noteq> None \<longleftrightarrow> a \<in> set (map fst ca)"
      proof
        assume "col_of h2 cs a \<noteq> None"
        then show "a \<in> set (map fst ca)" using pi(4) by (auto split: if_splits)
      next
        assume a: "a \<in> set (map fst ca)"
        then have "a \<in> set ?names" using ks by simp
        then have "color_of ca a \<noteq> None"
          using u by (auto simp: uncolored_def filter_empty_conv)
        then show "col_of h2 cs a \<noteq> None" by (simp add: ceq)
      qed
    qed
    have "coloring_inv symm (cf_of h1 cs) cs h2 sl (map fst ca)"
      unfolding coloring_inv_def
      using pi(1,2,3,5) dk ks dom cl pr by (simp add: ceq)
    then have ci: "coloring_inv symm (cf_of h g) (courses r) h2 (slots r) (map fst ca)"
      by (simp add: r cp(3))
    have "set (map fst ca) = set (map fst g)"
      using ks cp(2) by simp
    with ci have "\<exists>P. set P = set (map fst g)
        \<and> coloring_inv symm (cf_of h g) (courses r) h2 (slots r) P"
      by blast
    then show ?thesis
      using r cp(2,3) pi(2) by simp
  qed
qed

lemma coloring_inv_valid:
  assumes "coloring_inv True cf g h sl P"
  shows "verifySolution h g sl" and "slot_conflict_free h g sl"
proof -
  have cf: "cf_of h g = cf" and dP: "distinct P" and rep: "represents sl (col_of h g) P"
    and pr: "proper_coloring cf (col_of h g)"
    using assms by (simp_all add: coloring_inv_def)
  have pr': "proper_coloring (cf_of h g) (col_of h g)" using pr cf by simp
  show "verifySolution h g sl"
    by (rule verify_represents [OF rep dP pr'])
  show "slot_conflict_free h g sl"
    unfolding slot_conflict_free_def list_all_iff
  proof (intro ballI, clarify)
    fix s ns a b
    assume e: "(s, ns) \<in> set sl" and ab: "a \<in> set ns" "b \<in> set ns" "a \<noteq> b"
      and c: "conflicts_has h g a b"
    have "ns = filter (\<lambda>a. col_of h g a = Some s) P"
      by (rule represents_entry [OF rep e])
    then have "col_of h g a = Some s" "col_of h g b = Some s" using ab by auto
    then have "b \<notin> set (cf_of h g a)"
      using pr' ab(3) by (auto simp: proper_coloring_def)
    then show False using c by (simp add: conflicts_has_cf)
  qed
qed

lemma count_list_distinct: "distinct xs \<Longrightarrow> x \<in> set xs \<Longrightarrow> count_list xs x = 1"
  by (induction xs) auto

lemma coloring_inv_partition:
  assumes inv: "coloring_inv symm cf g h sl P" and keys: "set P = set (map fst g)"
  shows "set (map fst sl) = {1..length sl}" and "distinct (map fst sl)"
    and "slots_partition h g sl"
proof -
  let ?col = "col_of h g"
  have wf: "wf_graph h g" and dP: "distinct P" and rep: "represents sl ?col P"
    and dom: "\<forall>a. ?col a \<noteq> None \<longleftrightarrow> a \<in> set P" and cl: "closed_colors ?col"
    using inv by (simp_all add: coloring_inv_def)
  show "set (map fst sl) = {1..length sl}"
    by (rule represents_contiguous [OF rep dom cl])
  show "distinct (map fst sl)"
    using rep by (simp add: represents_def)
  show "slots_partition h g sl"
    unfolding slots_partition_def list_all_iff
  proof (intro ballI, clarify)
    fix k ref assume e: "(k, ref) \<in> set g"
    have m: "map_of g k = Some ref" using wf_graph_entry [OF wf e] by simp
    have kP: "k \<in> set P" using e keys by force
    then obtain s where s: "?col k = Some s" using dom by blast
    then have sl: "slot (h ! ref) = Some s" using m by (simp add: col_of_def)
    have "map_of sl s = Some (filter (\<lambda>a. ?col a = Some s) P)"
      using rep kP s by (auto simp: represents_def)
    moreover have "count_list (filter (\<lambda>a. ?col a = Some s) P) k = 1"
      by (rule count_list_distinct) (use dP kP s in auto)
    moreover have "\<forall>x \<in> set sl. case x of (s', ns') \<Rightarrow> k \<in> set ns' \<longrightarrow> s' = s"
    proof (intro ballI, clarify)
      fix s' ns' assume e': "(s', ns') \<in> set sl" and k: "k \<in> set ns'"
      have "ns' = filter (\<lambda>a. ?col a = Some s') P"
        by (rule represents_entry [OF rep e'])
      then have "?col k = Some s'" using k by simp
      then show "s' = s" using s by simp
    qed
    ultimately show "case slot (h ! ref) of
        None \<Rightarrow> False
      | Some s \<Rightarrow>
          (case map_of sl s of None \<Rightarrow> False | Some ns \<Rightarrow> count_list ns k = 1)
          \<and> (\<forall>x \<in> set sl. case x of (s', ns') \<Rightarrow> k \<in> set ns' \<longrightarrow> s' = s)"
      by (simp add: sl)
  qed
qed

lemma coloring_inv_clique:
  assumes inv: "coloring_inv True cf g h sl P" and keys: "set P = set (map fst g)"
    and K: "clique h g K"
  shows "card K \<le> length sl"
proof -
  have cf: "cf_of h g = cf" and rep: "represents sl (col_of h g) P"
    and dom: "\<forall>a. col_of h g a \<noteq> None \<longleftrightarrow> a \<in> set P"
    and pr: "proper_coloring cf (col_of h g)"
    using inv by (simp_all add: coloring_inv_def)
  have "K \<subseteq> set P" using K keys by (simp add: clique_def)
  moreover have "\<forall>a \<in> K. \<forall>b \<in> K. a \<noteq> b \<longrightarrow> b \<in> set (cf a)"
    using K cf by (auto simp: clique_def conflicts_has_cf)
  ultimately show ?thesis
    by (rule clique_bound [OF rep dom pr])
qed

lemma clique_transfer:
  assumes "clique h g K" and "map fst g' = map fst g" and "cf_of h' g' = cf_of h g"
  shows "clique h' g' K"
  using assms by (simp add: clique_def conflicts_has_cf)

lemma item_write: "item (h[r := (h ! r)\<lparr>slot := x, color := y\<rparr>]) q = item h q"
  by (cases "r < length h") (simp_all add: item_def nth_list_update list_update_beyond)

lemma item_fold_reset: "item (fold reset_course rs h) q = item h q"
  by (induction rs arbitrary: h) (simp_all add: reset_course_def item_write)

lemma fold_assign_pure:
  "snd (fold assign_course rs (h, sl)) = assign_slots (map (item h) rs) sl"
proof (induction rs arbitrary: h sl)
  case Nil
  then show ?case by (simp add: assign_slots_def)
next
  case (Cons r rs)
  define s where "s = find_slot (conflicts (h ! r)) sl 1"
  define h' where "h' = h[r := (h ! r)\<lparr>slot := Some s, color := slot_color s\<rparr>]"
  have a: "assign_course r (h, sl) = (h', slot_push sl s (name (h ! r)))"
    by (simp add: assign_course_def Let_def s_def h'_def)
  have "item h' = item h"
    by (rule ext) (simp add: h'_def item_write)
  then have "snd (fold assign_course rs (h', slot_push sl s (name (h ! r))))
      = assign_slots (map (item h) rs) (slot_push sl s (name (h ! r)))"
    using Cons.IH [of h' "slot_push sl s (name (h ! r))"] by simp
  moreover have hd: "item h r = (name (h ! r), conflicts (h ! r))"
    by (simp add: item_def)
  have "assign_slots (item h r # map (item h) rs) sl
      = assign_slots (map (item h) rs) (slot_push sl s (name (h ! r)))"
    unfolding hd by (simp add: assign_slots_def s_def)
  ultimately show ?case
    by (simp add: a)
qed

lemma insert_by_factor:
  assumes "\<And>a b. cmp a b = cmp' (f a) (f b)"
  shows "map f (insert_by cmp x ys) = insert_by cmp' (f x) (map f ys)"
  by (induction ys) (simp_all add: assms)

lemma sort_by_factor:
  assumes "\<And>a b. cmp a b = cmp' (f a) (f b)"
  shows "map f (sort_by cmp xs) = sort_by cmp' (map f xs)"
proof (induction xs)
  case Nil
  then show ?case by (simp add: sort_by_def)
next
  case (Cons x xs)
  have "sort_by cmp (x # xs) = insert_by cmp x (sort_by cmp xs)"
    by (simp add: sort_by_def)
  moreover have "sort_by cmp' (map f (x # xs)) = insert_by cmp' (f x) (sort_by cmp' (map f xs))"
    by (simp add: sort_by_def)
  moreover have "map f (insert_by cmp x (sort_by cmp xs))
      = insert_by cmp' (f x) (map f (sort_by cmp xs))"
    by (rule insert_by_factor [where cmp = cmp and cmp' = cmp' and f = f]) (rule assms)
  ultimately show ?case
    using Cons.IH by simp
qed

lemma greedy_cmp_item: "greedy_cmp lc h a b = item_cmp lc (item h a) (item h b)"
  by (simp add: greedy_cmp_def item_cmp_def item_def)

lemma conflict_pairs_pure: "conflict_pairs h rs = pair_keys (map (item h) rs)"
proof -
  have "fold (\<lambda>r cp. fold (\<lambda>conflictCourse cp'. set_add cp' (pair_key (name (h ! r)) conflictCourse))
                   (conflicts (h ! r)) cp) rs acc
      = fold (\<lambda>(nm, cfl) cp. fold (\<lambda>conflictCourse cp'. set_add cp' (pair_key nm conflictCourse)) cfl cp)
          (map (item h) rs) acc" for acc
    by (induction rs arbitrary: acc) (simp_all add: item_def)
  then show ?thesis
    by (simp add: conflict_pairs_def pair_keys_def)
qed

lemma greedy_pure:
  assumes "greedyColoring lc h g studs = (h2, out, r)"
  shows "slots r = assign_slots (sort_by (item_cmp lc) (map (item h) (map snd g))) []"
    and "totalConflicts r = length (pair_keys (sort_by (item_cmp lc) (map (item h) (map snd g))))"
proof -
  define h1 where "h1 = fold reset_course (map snd g) h"
  define rs where "rs = sort_by (greedy_cmp lc h1) (map snd g)"
  have i1: "item h1 = item h"
    by (rule ext) (simp add: h1_def item_fold_reset)
  have items: "map (item h1) rs = sort_by (item_cmp lc) (map (item h) (map snd g))"
  proof -
    have "map (item h1) (sort_by (greedy_cmp lc h1) (map snd g))
        = sort_by (item_cmp lc) (map (item h1) (map snd g))"
      by (rule sort_by_factor [where cmp = "greedy_cmp lc h1" and cmp' = "item_cmp lc" and f = "item h1"])
         (rule greedy_cmp_item)
    then show ?thesis by (simp only: rs_def i1)
  qed
  have sl: "snd (fold assign_course rs (h1, [])) = assign_slots (map (item h1) rs) []"
    by (rule fold_assign_pure)
  show "slots r = assign_slots (sort_by (item_cmp lc) (map (item h) (map snd g))) []"
  proof (cases "g = []")
    case True
    then show ?thesis using assms by (auto simp: greedyColoring_def sort_by_def assign_slots_def)
  next
    case False
    then have "slots r = snd (fold assign_course rs (h1, []))"
      using assms
      by (auto simp: greedyColoring_def Let_def h1_def [symmetric] rs_def [symmetric] split: prod.splits)
    then show ?thesis by (simp add: sl items)
  qed
  show "totalConflicts r = length (pair_keys (sort_by (item_cmp lc) (map (item h) (map snd g))))"
  proof (cases "g = []")
    case True
    then show ?thesis using assms by (auto simp: greedyColoring_def sort_by_def pair_keys_def)
  next
    case False
    then have "totalConflicts r = length (conflict_pairs h1 rs)"
      using assms
      by (auto simp: greedyColoring_def Let_def h1_def [symmetric] rs_def [symmetric] split: prod.splits)
    then show ?thesis by (simp add: conflict_pairs_pure items)
  qed
qed

lemma items_of_graph:
  assumes "wf_graph h g"
  shows "map (item h) (map snd g) = map (\<lambda>k. (k, cf_of h g k)) (map fst g)"
proof -
  have "item h r = (k, cf_of h g k)" if "(k, r) \<in> set g" for k r
    using wf_graph_entry [OF assms that] by (simp add: item_def cf_of_def)
  then show ?thesis by auto
qed

lemma same_slots_same_colors:
  assumes i1: "coloring_inv s1 cf1 g1 h1 sl P1" and k1: "set P1 = set (map fst g1)"
    and i2: "coloring_inv s2 cf2 g2 h2 sl P2" and k2: "set P2 = set (map fst g2)"
    and keys: "map fst g1 = map fst g2"
  shows "col_of h1 g1 = col_of h2 g2" and "paint_of h1 g1 = paint_of h2 g2"
proof -
  have rep1: "represents sl (col_of h1 g1) P1" and dom1: "\<forall>a. col_of h1 g1 a \<noteq> None \<longleftrightarrow> a \<in> set P1"
    and pt1: "\<forall>a. paint_of h1 g1 a = (case col_of h1 g1 a of None \<Rightarrow> None | Some s \<Rightarrow> slot_color s)"
    using i1 by (simp_all add: coloring_inv_def)
  have rep2: "represents sl (col_of h2 g2) P2" and dom2: "\<forall>a. col_of h2 g2 a \<noteq> None \<longleftrightarrow> a \<in> set P2"
    and pt2: "\<forall>a. paint_of h2 g2 a = (case col_of h2 g2 a of None \<Rightarrow> None | Some s \<Rightarrow> slot_color s)"
    using i2 by (simp_all add: coloring_inv_def)
  have P: "set P1 = set P2" using k1 k2 keys by simp
  have "col_of h1 g1 a = col_of h2 g2 a" for a
  proof (cases "a \<in> set P1")
    case False
    then have "col_of h1 g1 a = None" "col_of h2 g2 a = None"
      using dom1 dom2 P by auto
    then show ?thesis by simp
  next
    case True
    then obtain s where s: "col_of h1 g1 a = Some s" using dom1 by blast
    have "map_of sl s = Some (filter (\<lambda>a. col_of h1 g1 a = Some s) P1)"
      using rep1 True s by (auto simp: represents_def)
    then have e: "(s, filter (\<lambda>a. col_of h1 g1 a = Some s) P1) \<in> set sl"
      by (rule map_of_SomeD)
    have "filter (\<lambda>a. col_of h1 g1 a = Some s) P1 = filter (\<lambda>a. col_of h2 g2 a = Some s) P2"
      by (rule represents_entry [OF rep2 e])
    moreover have "a \<in> set (filter (\<lambda>a. col_of h1 g1 a = Some s) P1)"
      using True s by simp
    ultimately have "col_of h2 g2 a = Some s" by simp
    then show ?thesis using s by simp
  qed
  then show c: "col_of h1 g1 = col_of h2 g2" by (rule ext)
  show "paint_of h1 g1 = paint_of h2 g2"
    by (rule ext) (simp add: pt1 pt2 c)
qed

subsection \<open>The DSATUR colorer returns on graphs whose conflict names are courses\<close>

lemma closed_graph_cf:
  assumes "wf_graph h g" and "closed_graph h g"
  shows "set (cf_of h g a) \<subseteq> set (map fst g)"
proof (cases "map_of g a")
  case None
  then show ?thesis by (simp add: cf_of_def)
next
  case (Some r)
  then have "(a, r) \<in> set g" by (rule map_of_SomeD)
  then have "list_all (\<lambda>b. b \<in> set (map fst g)) (conflicts (h ! r))"
    using assms(2) by (auto simp: closed_graph_def list_all_iff)
  then show ?thesis using Some by (auto simp: cf_of_def list_all_iff)
qed

lemma saturate_total:
  assumes "set cfl \<subseteq> set (map fst sat)"
  shows "\<exists>sat'. forEach (saturate c) cfl sat = Inr sat' \<and> set (map fst sat') = set (map fst sat)"
  using assms
proof (induction cfl arbitrary: sat)
  case Nil
  then show ?case by simp
next
  case (Cons nb cfl)
  then have "nb \<in> set (map fst sat)" by simp
  then obtain s where s: "map_of sat nb = Some s"
    by (metis map_of_eq_None_iff not_Some_eq set_map)
  let ?sat = "AList.update nb (set_add s c) sat"
  have k: "set (map fst ?sat) = set (map fst sat)"
    using dom_update [of nb "set_add s c" sat] \<open>nb \<in> set (map fst sat)\<close> by auto
  have st: "saturate c nb sat = Inr ?sat" by (simp add: saturate_def s)
  have "\<exists>sat'. forEach (saturate c) cfl ?sat = Inr sat' \<and> set (map fst sat') = set (map fst ?sat)"
    by (rule Cons.IH) (use Cons.prems k in simp)
  then show ?case using st k by simp
qed

lemma sort_by_nonempty: "xs \<noteq> [] \<Longrightarrow> sort_by cmp xs \<noteq> []"
  using set_sort_by [of cmp xs] by (metis set_empty)

lemma dsatur_step_total:
  assumes ne: "candidates \<noteq> []" and sub: "set candidates \<subseteq> set (map fst cs)"
    and ks: "set (map fst sat) = set (map fst cs)"
    and cl: "\<forall>a. set (cf_of h cs a) \<subseteq> set (map fst cs)"
  shows "\<exists>ca' sat'. dsatur_step lc h cs degree candidates (ca, sat) = Inr (ca', sat')
    \<and> set (map fst sat') = set (map fst cs)"
proof -
  obtain v vs where sv: "sort_by (dsatur_cmp lc sat degree) candidates = v # vs"
    using sort_by_nonempty [OF ne] by (cases "sort_by (dsatur_cmp lc sat degree) candidates") auto
  then have "v \<in> set (sort_by (dsatur_cmp lc sat degree) candidates)" by simp
  then have "v \<in> set (map fst cs)" using sub by (auto simp: set_sort_by)
  then obtain r where r: "map_of cs v = Some r"
    by (metis map_of_eq_None_iff not_Some_eq set_map)
  have "set (conflicts (h ! r)) \<subseteq> set (map fst sat)"
    using cl [rule_format, of v] r ks by (simp add: cf_of_def)
  from saturate_total [OF this] obtain sat' where
    s: "forEach (saturate (first_free (neighbor_colors ca (conflicts (h ! r))) 1))
          (conflicts (h ! r)) sat = Inr sat'"
      "set (map fst sat') = set (map fst sat)"
    by blast
  show ?thesis
    using sv r s ks by (simp add: dsatur_step_def Let_def)
qed

lemma dsatur_loop_total:
  assumes "set (map fst (snd st)) = set (map fst cs)" and "set courseNames \<subseteq> set (map fst cs)"
    and "\<forall>a. set (cf_of h cs a) \<subseteq> set (map fst cs)"
  shows "\<exists>ca. dsatur_loop lc h cs degree courseNames st = Inr ca"
  using assms
proof (induction lc h cs degree courseNames st rule: dsatur_loop.induct)
  case (1 lc h cs degree courseNames st)
  show ?case
  proof (cases "uncolored (fst st) courseNames = []")
    case True
    then have "dsatur_loop lc h cs degree courseNames st = Inr (fst st)"
      by (subst dsatur_loop.simps) simp
    then show ?thesis by simp
  next
    case False
    obtain ca0 sat0 where st: "st = (ca0, sat0)" by (cases st)
    have sub: "set (uncolored (fst st) courseNames) \<subseteq> set (map fst cs)"
      using "1.prems"(2) by (auto simp: uncolored_def)
    from dsatur_step_total [OF False sub _ "1.prems"(3), of sat0 lc degree ca0]
    obtain ca1 sat1 where
      s: "dsatur_step lc h cs degree (uncolored (fst st) courseNames) st = Inr (ca1, sat1)"
      and k: "set (map fst sat1) = set (map fst cs)"
      using "1.prems"(1) by (auto simp: st)
    have unf: "dsatur_loop lc h cs degree courseNames st =
        dsatur_loop lc h cs degree courseNames (ca1, sat1)"
      using False s by (subst dsatur_loop.simps) (simp add: Let_def)
    have "\<exists>ca. dsatur_loop lc h cs degree courseNames (ca1, sat1) = Inr ca"
      by (rule "1.IH" [OF refl _ s _ "1.prems"(2,3)]) (use False k in simp_all)
    then show ?thesis by (simp add: unf)
  qed
qed

lemma init_maps_total:
  assumes "set nms \<subseteq> set (map fst cs)"
  shows "\<exists>ca sat deg. forEach (init_maps h cs) nms (ca0, sat0, deg0) = Inr (ca, sat, deg)
    \<and> set (map fst sat) = set (map fst sat0) \<union> set nms"
  using assms
proof (induction nms arbitrary: ca0 sat0 deg0)
  case Nil
  then show ?case by simp
next
  case (Cons nm nms)
  then have "nm \<in> set (map fst cs)" by simp
  then obtain r where r: "map_of cs nm = Some r"
    by (metis map_of_eq_None_iff not_Some_eq set_map)
  let ?ca = "AList.update nm None ca0" and ?sat = "AList.update nm [] sat0"
    and ?deg = "AList.update nm (length (conflicts (h ! r))) deg0"
  have st: "init_maps h cs nm (ca0, sat0, deg0) = Inr (?ca, ?sat, ?deg)"
    by (simp add: init_maps_def r)
  have "\<exists>ca sat deg. forEach (init_maps h cs) nms (?ca, ?sat, ?deg) = Inr (ca, sat, deg)
    \<and> set (map fst sat) = set (map fst ?sat) \<union> set nms"
    by (rule Cons.IH) (use Cons.prems in simp)
  moreover have "set (map fst ?sat) = insert nm (set (map fst sat0))"
    using dom_update [of nm "[]" sat0] by simp
  ultimately show ?case using st by auto
qed

lemma place_course_total:
  assumes "set (map fst es) \<subseteq> set (map fst cs)"
  shows "\<exists>h2 sl2. forEach (place_course cs) es (hh, sl) = Inr (h2, sl2)"
  using assms
proof (induction es arbitrary: hh sl)
  case Nil
  then show ?case by simp
next
  case (Cons e es)
  obtain nm col where e: "e = (nm, col)" by (cases e)
  then have "nm \<in> set (map fst cs)" using Cons.prems by simp
  then obtain r where r: "map_of cs nm = Some r"
    by (metis map_of_eq_None_iff not_Some_eq set_map)
  then obtain h1 sl1 where p: "place_course cs e (hh, sl) = Inr (h1, sl1)"
    by (simp add: place_course_def e Let_def)
  have "\<exists>h2 sl2. forEach (place_course cs) es (h1, sl1) = Inr (h2, sl2)"
    by (rule Cons.IH) (use Cons.prems in simp)
  then show ?case using p by simp
qed

lemma dsaturColoring_returns:
  assumes wf: "wf_graph h g" and cl: "closed_graph h g"
  shows "\<exists>h' r. dsaturColoring lc h g studs = (h', Inr r)"
proof -
  obtain h1 cs where f: "fold copy_course g (h, []) = (h1, cs)"
    by (cases "fold copy_course g (h, [])")
  note cp = copy_courses_spec [OF wf f]
  show ?thesis
  proof (cases "cs = []")
    case True
    then show ?thesis by (simp add: dsaturColoring_def f)
  next
    case False
    let ?names = "map fst cs"
    from init_maps_total [of ?names cs h1 "[]" "[]" "[]"] obtain ca0 sat0 deg where
      im: "forEach (init_maps h1 cs) ?names ([], [], []) = Inr (ca0, sat0, deg)"
      and k0: "set (map fst sat0) = set ?names"
      by auto
    have clo: "\<forall>a. set (cf_of h1 cs a) \<subseteq> set (map fst cs)"
      using closed_graph_cf [OF wf cl] cp(2,3) by simp
    from dsatur_loop_total [of "(ca0, sat0)" cs ?names h1 lc deg] obtain ca where
      lp: "dsatur_loop lc h1 cs deg ?names (ca0, sat0) = Inr ca"
      using k0 clo by auto
    have i0: "(\<forall>a. color_of ca0 a = None) \<and> distinct (map fst ca0)
        \<and> set (map fst ca0) = set (map fst ([] :: color_map)) \<union> set ?names"
      by (rule init_maps_inv [OF im]) (simp_all add: color_of_def)
    then have "color_of ca0 = (\<lambda>a. None)" by auto
    then have d0: "dsatur_inv False (cf_of h1 cs) ?names (fst (ca0, sat0))"
      using i0 by (simp add: dsatur_inv_def closed_colors_def)
    have "dsatur_inv False (cf_of h1 cs) ?names ca"
      using dsatur_loop_inv [OF d0 _ refl lp] by simp
    then have "set (map fst ca) \<subseteq> set (map fst cs)"
      by (simp add: dsatur_inv_def)
    from place_course_total [OF this, of h1 "[]"] obtain h2 sl where
      pl: "forEach (place_course cs) ca (h1, []) = Inr (h2, sl)"
      by blast
    show ?thesis
      using False im lp pl by (simp add: dsaturColoring_def f Let_def)
  qed
qed

lemma buildConflictGraph_closed:
  assumes "buildConflictGraph h studs courseNames = Inr (h', g)"
  shows "wf_graph h' g \<and> closed_graph h' g"
proof -
  from buildConflictGraph_effect [of h studs courseNames] assms have
    wf: "wf_graph h' g"
    and eff: "\<And>a b. conflicts_has h' g a b =
      (\<exists>student \<in> set studs.
          (a, b) \<in> set (pairs (studentValidCourses (map fst g) student))
        \<or> (b, a) \<in> set (pairs (studentValidCourses (map fst g) student)))"
    by auto
  have "b \<in> set (map fst g)" if "conflicts_has h' g a b" for a b
  proof -
    from that eff obtain student where
      "(a, b) \<in> set (pairs (studentValidCourses (map fst g) student))
        \<or> (b, a) \<in> set (pairs (studentValidCourses (map fst g) student))"
      by blast
    then have "b \<in> set (studentValidCourses (map fst g) student)"
      using set_pairs_subset [of a b "studentValidCourses (map fst g) student"]
        set_pairs_subset [of b a "studentValidCourses (map fst g) student"] by blast
    then show ?thesis by (rule set_studentValidCourses)
  qed
  note inkeys = this
  have "closed_graph h' g"
    unfolding closed_graph_def list_all_iff
  proof (intro ballI, clarify)
    fix k r b assume e: "(k, r) \<in> set g" and b: "b \<in> set (conflicts (h' ! r))"
    have "map_of g k = Some r" using wf_graph_entry [OF wf e] by simp
    then have "conflicts_has h' g k b" using b by (simp add: conflicts_has_def)
    then show "b \<in> set (map fst g)" by (rule inkeys)
  qed
  with wf show ?thesis by simp
qed

subsection \<open>Students without repeated courses; pair keys of names without the separator\<close>

lemma buildConflictGraph_no_self_conflict:
  assumes "\<forall>student \<in> set studs. distinct (map trim (student_courses student))"
    and "buildConflictGraph h studs courseNames = Inr (h', g)"
  shows "no_self_conflict h' g"
proof -
  from buildConflictGraph_effect [of h studs courseNames] assms(2) have
    eff: "\<And>a b. conflicts_has h' g a b =
      (\<exists>student \<in> set studs.
          (a, b) \<in> set (pairs (studentValidCourses (map fst g) student))
        \<or> (b, a) \<in> set (pairs (studentValidCourses (map fst g) student)))"
    by auto
  have "\<not> conflicts_has h' g a a" for a
  proof
    assume "conflicts_has h' g a a"
    then obtain student where s: "student \<in> set studs"
      and p: "(a, a) \<in> set (pairs (studentValidCourses (map fst g) student))"
      using eff by blast
    have "distinct (map trim (student_courses student))" using assms(1) s by simp
    then have "distinct (studentValidCourses (map fst g) student)"
      by (simp add: studentValidCourses_def distinct_map_filter)
    then have "a \<noteq> a" using p by (rule pairs_distinct)
    then show False by simp
  qed
  then show ?thesis by (simp add: no_self_conflict_def list_all_iff)
qed

lemma js_less_asym: "js_less a b \<Longrightarrow> \<not> js_less b a"
  by (induction a b rule: js_less.induct) (auto split: if_splits)

lemma js_less_total: "\<not> js_less a b \<Longrightarrow> \<not> js_less b a \<Longrightarrow> a = b"
  by (induction a b rule: js_less.induct) (auto split: if_splits)

lemma pair_key_commute: "pair_key a b = pair_key b a"
  using js_less_asym [of a b] js_less_asym [of b a] js_less_total [of a b]
  by (auto simp: pair_key_def)

lemma bar_split:
  assumes "bar_free x" and "bar_free x'" and "x @ CHR ''|'' # y = x' @ CHR ''|'' # y'"
  shows "x = x' \<and> y = y'"
  using assms
proof (induction x arbitrary: x')
  case Nil
  then show ?case by (cases x') (auto simp: bar_free_def)
next
  case (Cons c x)
  then show ?case by (cases x') (auto simp: bar_free_def)
qed

lemma pair_key_eq_iff:
  assumes "bar_free a" "bar_free b" "bar_free c" "bar_free d"
  shows "pair_key a b = pair_key c d \<longleftrightarrow> {a, b} = {c, d}"
proof
  assume "{a, b} = {c, d}"
  then have "(a = c \<and> b = d) \<or> (a = d \<and> b = c)" by (auto simp: doubleton_eq_iff)
  then show "pair_key a b = pair_key c d" using pair_key_commute by auto
next
  assume e: "pair_key a b = pair_key c d"
  obtain x y where xy: "pair_key a b = x @ CHR ''|'' # y" "{x, y} = {a, b}"
    by (cases "js_less b a") (auto simp: pair_key_def)
  obtain x' y' where xy': "pair_key c d = x' @ CHR ''|'' # y'" "{x', y'} = {c, d}"
    by (cases "js_less d c") (auto simp: pair_key_def)
  have "bar_free x" "bar_free x'"
    using xy(2) xy'(2) assms by (auto simp: doubleton_eq_iff)
  then have "x = x' \<and> y = y'"
    using e xy(1) xy'(1) by (intro bar_split) simp_all
  then show "{a, b} = {c, d}" using xy(2) xy'(2) by simp
qed

lemma card_image_same_kernel:
  assumes "finite E" and "\<forall>x \<in> E. \<forall>y \<in> E. (f x = f y) = (g x = g y)"
  shows "card (f ` E) = card (g ` E)"
  using assms
proof (induction E rule: finite_induct)
  case empty
  then show ?case by simp
next
  case (insert x E)
  have ih: "card (f ` E) = card (g ` E)"
    by (rule insert.IH) (use insert.prems in auto)
  have "(f x \<in> f ` E) = (g x \<in> g ` E)"
  proof
    assume "f x \<in> f ` E"
    then obtain y where "y \<in> E" "f x = f y" by auto
    then have "g x = g y" using insert.prems by auto
    then show "g x \<in> g ` E" using \<open>y \<in> E\<close> by auto
  next
    assume "g x \<in> g ` E"
    then obtain y where "y \<in> E" "g x = g y" by auto
    then have "f x = f y" using insert.prems by auto
    then show "f x \<in> f ` E" using \<open>y \<in> E\<close> by auto
  qed
  then show ?case
    using ih insert.hyps by (simp add: card_insert_if)
qed

lemma fold_set_add:
  "distinct acc \<Longrightarrow> distinct (fold (\<lambda>x acc'. set_add acc' (f x)) xs acc)
    \<and> set (fold (\<lambda>x acc'. set_add acc' (f x)) xs acc) = set acc \<union> f ` set xs"
  by (induction xs arbitrary: acc) (auto simp: set_add_def)

lemma conflict_pairs_fold:
  "distinct acc \<Longrightarrow>
    distinct (fold (\<lambda>r cp. fold (\<lambda>conflictCourse cp'. set_add cp' (pair_key (name (h ! r)) conflictCourse))
                   (conflicts (h ! r)) cp) rs acc)
    \<and> set (fold (\<lambda>r cp. fold (\<lambda>conflictCourse cp'. set_add cp' (pair_key (name (h ! r)) conflictCourse))
                   (conflicts (h ! r)) cp) rs acc)
      = set acc \<union> (\<lambda>(a, b). pair_key a b) ` edges_of h rs"
proof (induction rs arbitrary: acc)
  case Nil
  then show ?case by (simp add: edges_of_def)
next
  case (Cons r rs)
  let ?acc = "fold (\<lambda>conflictCourse cp'. set_add cp' (pair_key (name (h ! r)) conflictCourse))
      (conflicts (h ! r)) acc"
  have a: "distinct ?acc"
    "set ?acc = set acc \<union> pair_key (name (h ! r)) ` set (conflicts (h ! r))"
    using fold_set_add [OF Cons.prems, of "pair_key (name (h ! r))" "conflicts (h ! r)"]
    by simp_all
  have e: "edges_of h (r # rs) = Pair (name (h ! r)) ` set (conflicts (h ! r)) \<union> edges_of h rs"
    by (auto simp: edges_of_def)
  show ?case
    using Cons.IH [OF a(1)] a(2) by (simp add: e image_Un image_image Un_assoc)
qed

lemma length_conflict_pairs:
  "length (conflict_pairs h rs) = card ((\<lambda>(a, b). pair_key a b) ` edges_of h rs)"
proof -
  have "distinct (conflict_pairs h rs)"
    and "set (conflict_pairs h rs) = (\<lambda>(a, b). pair_key a b) ` edges_of h rs"
    using conflict_pairs_fold [of "[]" h rs] by (simp_all add: conflict_pairs_def)
  then show ?thesis by (metis distinct_card)
qed

lemma unordered_pair_count_edges:
  "unordered_pair_count h g = card ((\<lambda>(a, b). {a, b}) ` edges_of h (map snd g))"
proof -
  have "set (conflict_edges h g) = (\<lambda>(a, b). {a, b}) ` edges_of h (map snd g)"
    by (force simp: conflict_edges_def edges_of_def image_iff)
  then show ?thesis by (simp add: unordered_pair_count_def)
qed

subsection \<open>The conflict count on names without the separator\<close>

lemma edges_of_set: "set rs = set rs' \<Longrightarrow> edges_of h rs = edges_of h rs'"
  by (simp add: edges_of_def)

lemma edges_of_wf:
  assumes "wf_graph h g"
  shows "edges_of h (map snd g) = {(k, b). k \<in> set (map fst g) \<and> b \<in> set (cf_of h g k)}"
proof (rule set_eqI, clarify)
  fix a b
  show "(a, b) \<in> edges_of h (map snd g)
    \<longleftrightarrow> (a, b) \<in> {(k, b). k \<in> set (map fst g) \<and> b \<in> set (cf_of h g k)}"
  proof
    assume "(a, b) \<in> edges_of h (map snd g)"
    then obtain k r where e: "(k, r) \<in> set g" "a = name (h ! r)" "b \<in> set (conflicts (h ! r))"
      by (auto simp: edges_of_def)
    then have "map_of g k = Some r" "name (h ! r) = k"
      using wf_graph_entry [OF assms e(1)] by simp_all
    then show "(a, b) \<in> {(k, b). k \<in> set (map fst g) \<and> b \<in> set (cf_of h g k)}"
      using e by (force simp: cf_of_def)
  next
    assume "(a, b) \<in> {(k, b). k \<in> set (map fst g) \<and> b \<in> set (cf_of h g k)}"
    then have a: "a \<in> set (map fst g)" "b \<in> set (cf_of h g a)" by simp_all
    then obtain r where r: "map_of g a = Some r"
      by (cases "map_of g a") (auto simp: cf_of_def)
    then have "(a, r) \<in> set g" by (rule map_of_SomeD)
    moreover have "name (h ! r) = a" "b \<in> set (conflicts (h ! r))"
      using wf_graph_entry [OF assms \<open>(a, r) \<in> set g\<close>] a(2) r by (simp_all add: cf_of_def)
    ultimately show "(a, b) \<in> edges_of h (map snd g)"
      by (force simp: edges_of_def)
  qed
qed

lemma finite_edges_of: "finite (edges_of h rs)"
proof -
  have "edges_of h rs = (\<Union>r \<in> set rs. Pair (name (h ! r)) ` set (conflicts (h ! r)))"
    by (auto simp: edges_of_def)
  then show ?thesis by simp
qed

lemma count_pair_keys:
  assumes wf: "wf_graph h g" and bf: "names_bar_free h g"
    and wf': "wf_graph h' g'" and keys: "map fst g' = map fst g" and cf: "cf_of h' g' = cf_of h g"
    and rs: "set rs = set (map snd g')"
  shows "length (conflict_pairs h' rs) = unordered_pair_count h g"
proof -
  let ?E = "{(k, b). k \<in> set (map fst g) \<and> b \<in> set (cf_of h g k)}"
  have E': "edges_of h' rs = ?E"
    using edges_of_set [OF rs, of h'] edges_of_wf [OF wf'] by (simp add: keys cf)
  have E: "edges_of h (map snd g) = ?E" by (rule edges_of_wf [OF wf])
  have fin: "finite ?E" using finite_edges_of [of h "map snd g"] by (simp add: E)
  have free: "bar_free a \<and> bar_free b" if "(a, b) \<in> ?E" for a b
  proof -
    from that have a: "a \<in> set (map fst g)" "b \<in> set (cf_of h g a)" by simp_all
    then obtain r where r: "map_of g a = Some r"
      by (cases "map_of g a") (auto simp: cf_of_def)
    then have "(a, r) \<in> set g" by (rule map_of_SomeD)
    then have "bar_free a \<and> list_all bar_free (conflicts (h ! r))"
      using bf by (auto simp: names_bar_free_def list_all_iff)
    then show ?thesis using a(2) r by (auto simp: cf_of_def list_all_iff)
  qed
  have "\<forall>x \<in> ?E. \<forall>y \<in> ?E.
      ((case x of (a, b) \<Rightarrow> pair_key a b) = (case y of (a, b) \<Rightarrow> pair_key a b))
      = ((case x of (a, b) \<Rightarrow> {a, b}) = (case y of (a, b) \<Rightarrow> {a, b}))"
  proof (intro ballI)
    fix x y assume x: "x \<in> ?E" and y: "y \<in> ?E"
    obtain a b c d where xy: "x = (a, b)" "y = (c, d)" by (cases x, cases y) auto
    have "bar_free a" "bar_free b" "bar_free c" "bar_free d"
      using free [of a b] free [of c d] x y xy by simp_all
    then show "((case x of (a, b) \<Rightarrow> pair_key a b) = (case y of (a, b) \<Rightarrow> pair_key a b))
      = ((case x of (a, b) \<Rightarrow> {a, b}) = (case y of (a, b) \<Rightarrow> {a, b}))"
      by (simp add: xy pair_key_eq_iff)
  qed
  then have "card ((\<lambda>(a, b). pair_key a b) ` ?E) = card ((\<lambda>(a, b). {a, b}) ` ?E)"
    by (rule card_image_same_kernel [OF fin])
  then show ?thesis
    by (simp add: length_conflict_pairs unordered_pair_count_edges E E')
qed

lemma totalConflicts_bar_free:
  assumes wf: "wf_graph h g" and bf: "names_bar_free h g"
  shows "(case greedyColoring lc h g studs of
            (h', out, r) \<Rightarrow> totalConflicts r = unordered_pair_count h g)
       \<and> (case dsaturColoring lc h g studs of
            (h', Inl e) \<Rightarrow> True
          | (h', Inr r) \<Rightarrow> totalConflicts r = unordered_pair_count h g)"
proof
  obtain h2 out r where a: "greedyColoring lc h g studs = (h2, out, r)"
    by (cases "greedyColoring lc h g studs")
  have "totalConflicts r = unordered_pair_count h g"
  proof (cases "g = []")
    case True
    then have "totalConflicts r = 0" using a by (auto simp: greedyColoring_def)
    then show ?thesis
      using True by (simp add: unordered_pair_count_def conflict_edges_def)
  next
    case False
    define h1 where "h1 = fold reset_course (map snd g) h"
    define rs where "rs = sort_by (greedy_cmp lc h1) (map snd g)"
    have t: "totalConflicts r = length (conflict_pairs h1 rs)"
      using a False
      by (auto simp: greedyColoring_def Let_def h1_def [symmetric] rs_def [symmetric] split: prod.splits)
    have rs: "wf_graph h1 g" "cf_of h1 g = cf_of h g"
      using fold_reset_course [OF wf, of g] by (simp_all add: h1_def)
    have "set rs = set (map snd g)" by (simp add: rs_def set_sort_by)
    from count_pair_keys [OF wf bf rs(1) refl rs(2) this] show ?thesis
      by (simp add: t)
  qed
  then show "case greedyColoring lc h g studs of
      (h', out, r) \<Rightarrow> totalConflicts r = unordered_pair_count h g"
    by (simp add: a)
next
  obtain h2 res where d: "dsaturColoring lc h g studs = (h2, res)"
    by (cases "dsaturColoring lc h g studs")
  show "case dsaturColoring lc h g studs of
      (h', Inl e) \<Rightarrow> True
    | (h', Inr r) \<Rightarrow> totalConflicts r = unordered_pair_count h g"
  proof (cases res)
    case (Inl e)
    then show ?thesis by (simp add: d)
  next
    case (Inr r)
    from dsatur_spec [OF wf _ d [unfolded Inr], of False] obtain P where
      p: "map fst (courses r) = map fst g" "cf_of h2 (courses r) = cf_of h g"
        "coloring_inv False (cf_of h g) (courses r) h2 (slots r) P"
      by auto
    have w: "wf_graph h2 (courses r)" using p(3) by (simp add: coloring_inv_def)
    have t: "totalConflicts r = length (conflict_pairs h2 (map snd (courses r)))"
      using d [unfolded Inr]
      by (auto simp: dsaturColoring_def Let_def conflict_pairs_def split: prod.splits if_splits sum.splits)
    from count_pair_keys [OF wf bf w p(1,2) refl] show ?thesis
      by (simp add: d Inr t)
  qed
qed

subsection \<open>The greedy colorer on conflict sets in another order\<close>

lemma has_conflict_set_cong:
  "set cfl = set cfl' \<Longrightarrow> has_conflict cfl sl s = has_conflict cfl' sl s"
  by (cases "map_of sl s") (simp_all add: has_conflict_def)

lemma find_slot_set_cong:
  "set cfl = set cfl' \<Longrightarrow> find_slot cfl sl s = find_slot cfl' sl s"
proof (induction cfl sl s rule: find_slot.induct)
  case (1 cfl sl s)
  have hc: "has_conflict cfl' sl s = has_conflict cfl sl s"
    using has_conflict_set_cong [OF "1.prems", of sl s] by simp
  show ?case
  proof (cases "has_conflict cfl sl s")
    case True
    have "find_slot cfl sl s = find_slot cfl sl (Suc s)"
      using True by (subst find_slot.simps) simp
    moreover have "find_slot cfl' sl s = find_slot cfl' sl (Suc s)"
      using True hc by (subst find_slot.simps) simp
    ultimately show ?thesis using "1.IH" [OF True "1.prems"] by simp
  next
    case False
    have "find_slot cfl sl s = s"
      using False by (subst find_slot.simps) simp
    moreover have "find_slot cfl' sl s = s"
      using False hc by (subst find_slot.simps) simp
    ultimately show ?thesis by simp
  qed
qed

lemma assign_slots_same:
  "list_all2 same_item xs ys \<Longrightarrow> assign_slots xs sl = assign_slots ys sl"
proof (induction xs ys arbitrary: sl rule: list_all2_induct)
  case Nil
  then show ?case by simp
next
  case (Cons x xs y ys)
  obtain n c where x: "x = (n, c)" by (cases x)
  obtain n' c' where y: "y = (n', c')" by (cases y)
  have e: "n = n'" "set c = set c'" using Cons.hyps(1) by (simp_all add: same_item_def x y)
  have "find_slot c sl 1 = find_slot c' sl 1" using e(2) by (rule find_slot_set_cong)
  then show ?case
    using Cons.IH [of "slot_push sl (find_slot c' sl 1) n'"] e(1)
    by (simp add: assign_slots_def x y)
qed

lemma item_cmp_same:
  "same_item a a' \<Longrightarrow> same_item b b' \<Longrightarrow> item_cmp lc a b = item_cmp lc a' b'"
  by (simp add: same_item_def item_cmp_def)

lemma insert_by_same:
  assumes "same_item x y" and "list_all2 same_item xs ys"
  shows "list_all2 same_item (insert_by (item_cmp lc) x xs) (insert_by (item_cmp lc) y ys)"
  using assms(2,1)
proof (induction xs ys rule: list_all2_induct)
  case Nil
  then show ?case by simp
next
  case (Cons a xs b ys)
  have "item_cmp lc x a = item_cmp lc y b"
    using Cons.prems Cons.hyps(1) by (rule item_cmp_same)
  then show ?case
    using Cons by simp
qed

lemma sort_by_same:
  "list_all2 same_item xs ys \<Longrightarrow>
    list_all2 same_item (sort_by (item_cmp lc) xs) (sort_by (item_cmp lc) ys)"
proof (induction xs ys rule: list_all2_induct)
  case Nil
  then show ?case by (simp add: sort_by_def)
next
  case (Cons x xs y ys)
  have "sort_by (item_cmp lc) (x # xs) = insert_by (item_cmp lc) x (sort_by (item_cmp lc) xs)"
    "sort_by (item_cmp lc) (y # ys) = insert_by (item_cmp lc) y (sort_by (item_cmp lc) ys)"
    by (simp_all add: sort_by_def)
  then show ?case
    using insert_by_same [OF Cons.hyps(1) Cons.IH] by simp
qed

lemma items_same:
  assumes "wf_graph h1 g1" and "wf_graph h2 g2" and "map fst g1 = map fst g2"
    and "same_conflicts h1 g1 h2 g2"
  shows "list_all2 same_item (map (item h1) (map snd g1)) (map (item h2) (map snd g2))"
proof -
  have "list_all2 same_item (map (\<lambda>k. (k, cf_of h1 g1 k)) ks) (map (\<lambda>k. (k, cf_of h2 g2 k)) ks)" for ks
    using assms(4) by (induction ks) (simp_all add: same_item_def same_conflicts_def)
  then show ?thesis
    unfolding items_of_graph [OF assms(1)] items_of_graph [OF assms(2)] assms(3) .
qed

lemma greedy_totalConflicts_card:
  assumes wf: "wf_graph h g" and res: "greedyColoring lc h g studs = (h2, out, r)"
  shows "totalConflicts r =
    card ((\<lambda>(a, b). pair_key a b) ` {(k, b). k \<in> set (map fst g) \<and> b \<in> set (cf_of h g k)})"
proof (cases "g = []")
  case True
  then have "totalConflicts r = 0" using res by (auto simp: greedyColoring_def)
  then show ?thesis using True by simp
next
  case False
  define h1 where "h1 = fold reset_course (map snd g) h"
  define rs where "rs = sort_by (greedy_cmp lc h1) (map snd g)"
  have t: "totalConflicts r = length (conflict_pairs h1 rs)"
    using res False
    by (auto simp: greedyColoring_def Let_def h1_def [symmetric] rs_def [symmetric] split: prod.splits)
  have w: "wf_graph h1 g" "cf_of h1 g = cf_of h g"
    using fold_reset_course [OF wf, of g] by (simp_all add: h1_def)
  have "set rs = set (map snd g)" by (simp add: rs_def set_sort_by)
  then have "edges_of h1 rs = edges_of h1 (map snd g)" by (rule edges_of_set)
  then have "edges_of h1 rs = {(k, b). k \<in> set (map fst g) \<and> b \<in> set (cf_of h g k)}"
    using edges_of_wf [OF w(1)] by (simp add: w(2))
  then show ?thesis by (simp add: t length_conflict_pairs)
qed


section \<open>Results on both colorers\<close>

text \<open>
  Claim C1. For a well-formed course graph that satisfies the symmetry invariant, every
  result of the greedy colorer and every result of the DSATUR colorer is a valid
  coloring: the verifier returns true on the result's courses and slots, and no two
  distinct course names of one slot appear in each other's conflict sets.
\<close>

theorem coloring_valid:
  assumes "wf_graph h g" and "symmetric_graph h g"
  shows "(case greedyColoring lc h g studs of
            (h', out, r) \<Rightarrow>
              verifySolution h' (courses r) (slots r) \<and> slot_conflict_free h' (courses r) (slots r))
       \<and> (case dsaturColoring lc h g studs of
            (h', Inl e) \<Rightarrow> True
          | (h', Inr r) \<Rightarrow>
              verifySolution h' (courses r) (slots r) \<and> slot_conflict_free h' (courses r) (slots r))"
proof
  obtain h' out r where g: "greedyColoring lc h g studs = (h', out, r)"
    by (cases "greedyColoring lc h g studs")
  from greedy_spec [OF assms(1) _ g, of True] assms(2) obtain P where
    "courses r = g" "coloring_inv True (cf_of h g) g h' (slots r) P"
    by auto
  then show "case greedyColoring lc h g studs of
      (h', out, r) \<Rightarrow>
        verifySolution h' (courses r) (slots r) \<and> slot_conflict_free h' (courses r) (slots r)"
    using coloring_inv_valid [of "cf_of h g" g h' "slots r" P] by (simp add: g)
next
  obtain h' res where d: "dsaturColoring lc h g studs = (h', res)"
    by (cases "dsaturColoring lc h g studs")
  show "case dsaturColoring lc h g studs of
      (h', Inl e) \<Rightarrow> True
    | (h', Inr r) \<Rightarrow>
        verifySolution h' (courses r) (slots r) \<and> slot_conflict_free h' (courses r) (slots r)"
  proof (cases res)
    case (Inl e)
    then show ?thesis by (simp add: d)
  next
    case (Inr r)
    from dsatur_spec [OF assms(1) _ d [unfolded Inr], of True] assms(2) obtain P where
      "coloring_inv True (cf_of h g) (courses r) h' (slots r) P"
      by auto
    then show ?thesis
      using coloring_inv_valid [of "cf_of h g" "courses r" h' "slots r" P] by (simp add: d Inr)
  qed
qed

theorem coloring_valid_witness:
  "wf_graph example_heap example_graph \<and> symmetric_graph example_heap example_graph
    \<and> (case greedyColoring js_compare example_heap example_graph example_students of
          (h', out, r) \<Rightarrow>
            verifySolution h' (courses r) (slots r) \<and> slot_conflict_free h' (courses r) (slots r))
    \<and> (case dsaturColoring js_compare example_heap example_graph example_students of
          (h', Inl e) \<Rightarrow> True
        | (h', Inr r) \<Rightarrow>
            verifySolution h' (courses r) (slots r) \<and> slot_conflict_free h' (courses r) (slots r))
    \<and> snd (dsaturColoring js_compare example_heap example_graph example_students) \<noteq> Inl TypeError"
proof -
  have a: "wf_graph example_heap example_graph" by code_simp
  have b: "symmetric_graph example_heap example_graph" by code_simp
  have c: "snd (dsaturColoring js_compare example_heap example_graph example_students) \<noteq> Inl TypeError"
    by code_simp
  note t = coloring_valid [OF a b, of js_compare example_students]
  show ?thesis
    by (intro conjI a b c t [THEN conjunct1] t [THEN conjunct2])
qed

text \<open>
  Claim C8. For a well-formed, symmetric course graph, \<open>totalSlots\<close> of the result of
  either colorer is at least the size of every set of pairwise conflicting courses; three
  pairwise conflicting courses need at least three slots.
\<close>

theorem slots_clique_bound:
  assumes "wf_graph h g" and "symmetric_graph h g" and "clique h g K"
  shows "(case greedyColoring lc h g studs of (h', out, r) \<Rightarrow> card K \<le> totalSlots r)
       \<and> (case dsaturColoring lc h g studs of
            (h', Inl e) \<Rightarrow> True
          | (h', Inr r) \<Rightarrow> card K \<le> totalSlots r)"
proof
  obtain h' out r where g: "greedyColoring lc h g studs = (h', out, r)"
    by (cases "greedyColoring lc h g studs")
  from greedy_spec [OF assms(1) _ g, of True] assms(2) obtain P where
    p: "courses r = g" "totalSlots r = length (slots r)" "set P = set (map fst g)"
      "coloring_inv True (cf_of h g) g h' (slots r) P"
    by auto
  have "cf_of h' g = cf_of h g" using p(4) by (simp add: coloring_inv_def)
  then have "clique h' g K" using assms(3) by (simp add: clique_transfer)
  then have "card K \<le> length (slots r)"
    by (rule coloring_inv_clique [OF p(4,3)])
  then show "case greedyColoring lc h g studs of (h', out, r) \<Rightarrow> card K \<le> totalSlots r"
    by (simp add: g p(2))
next
  obtain h' res where d: "dsaturColoring lc h g studs = (h', res)"
    by (cases "dsaturColoring lc h g studs")
  show "case dsaturColoring lc h g studs of
      (h', Inl e) \<Rightarrow> True
    | (h', Inr r) \<Rightarrow> card K \<le> totalSlots r"
  proof (cases res)
    case (Inl e)
    then show ?thesis by (simp add: d)
  next
    case (Inr r)
    from dsatur_spec [OF assms(1) _ d [unfolded Inr], of True] assms(2) obtain P where
      p: "map fst (courses r) = map fst g" "totalSlots r = length (slots r)"
        "cf_of h' (courses r) = cf_of h g" "set P = set (map fst g)"
        "coloring_inv True (cf_of h g) (courses r) h' (slots r) P"
      by auto
    have "clique h' (courses r) K"
      using assms(3) p(1,3) by (rule clique_transfer)
    moreover have "set P = set (map fst (courses r))" using p(1,4) by simp
    ultimately have "card K \<le> length (slots r)"
      using coloring_inv_clique [OF p(5)] by simp
    then show ?thesis by (simp add: d Inr p(2))
  qed
qed

theorem slots_clique_bound_witness:
  "wf_graph triangle_heap triangle_graph \<and> symmetric_graph triangle_heap triangle_graph
    \<and> clique triangle_heap triangle_graph {''A'', ''B'', ''C''}
    \<and> (case greedyColoring js_compare triangle_heap triangle_graph [] of
          (h', out, r) \<Rightarrow> 3 \<le> totalSlots r)
    \<and> (case dsaturColoring js_compare triangle_heap triangle_graph [] of
          (h', Inl e) \<Rightarrow> True
        | (h', Inr r) \<Rightarrow> 3 \<le> totalSlots r)
    \<and> snd (dsaturColoring js_compare triangle_heap triangle_graph []) \<noteq> Inl TypeError"
proof -
  have a: "wf_graph triangle_heap triangle_graph" by code_simp
  have b: "symmetric_graph triangle_heap triangle_graph" by code_simp
  have c: "clique triangle_heap triangle_graph {''A'', ''B'', ''C''}"
    unfolding clique_def by code_simp
  have d: "snd (dsaturColoring js_compare triangle_heap triangle_graph []) \<noteq> Inl TypeError"
    by code_simp
  have k: "card {''A'', ''B'', ''C''} = 3" by simp
  note t = slots_clique_bound [OF a b c, of js_compare "[]", unfolded k]
  show ?thesis
    by (intro conjI a b c d t [THEN conjunct1] t [THEN conjunct2])
qed

text \<open>
  Claim C10. In the result of either colorer on a well-formed course graph the slot
  numbers in use are exactly \<open>1..totalSlots\<close>, each once as a key, and every course of the
  result's graph has a slot field, stands exactly once in the list of that slot and in no
  other list.
\<close>

theorem slots_contiguous_partition:
  assumes "wf_graph h g"
  shows "(case greedyColoring lc h g studs of
            (h', out, r) \<Rightarrow>
              set (map fst (slots r)) = {1..totalSlots r} \<and> distinct (map fst (slots r))
              \<and> slots_partition h' (courses r) (slots r))
       \<and> (case dsaturColoring lc h g studs of
            (h', Inl e) \<Rightarrow> True
          | (h', Inr r) \<Rightarrow>
              set (map fst (slots r)) = {1..totalSlots r} \<and> distinct (map fst (slots r))
              \<and> slots_partition h' (courses r) (slots r))"
proof
  obtain h' out r where g: "greedyColoring lc h g studs = (h', out, r)"
    by (cases "greedyColoring lc h g studs")
  from greedy_spec [OF assms(1) _ g, of False] obtain P where
    p: "courses r = g" "totalSlots r = length (slots r)" "set P = set (map fst g)"
      "coloring_inv False (cf_of h g) g h' (slots r) P"
    by auto
  show "case greedyColoring lc h g studs of
      (h', out, r) \<Rightarrow>
        set (map fst (slots r)) = {1..totalSlots r} \<and> distinct (map fst (slots r))
        \<and> slots_partition h' (courses r) (slots r)"
    using coloring_inv_partition [OF p(4,3)] by (simp add: g p(1,2))
next
  obtain h' res where d: "dsaturColoring lc h g studs = (h', res)"
    by (cases "dsaturColoring lc h g studs")
  show "case dsaturColoring lc h g studs of
      (h', Inl e) \<Rightarrow> True
    | (h', Inr r) \<Rightarrow>
        set (map fst (slots r)) = {1..totalSlots r} \<and> distinct (map fst (slots r))
        \<and> slots_partition h' (courses r) (slots r)"
  proof (cases res)
    case (Inl e)
    then show ?thesis by (simp add: d)
  next
    case (Inr r)
    from dsatur_spec [OF assms(1) _ d [unfolded Inr], of False] obtain P where
      p: "map fst (courses r) = map fst g" "totalSlots r = length (slots r)"
        "set P = set (map fst g)"
        "coloring_inv False (cf_of h g) (courses r) h' (slots r) P"
      by auto
    have "set P = set (map fst (courses r))" using p(1,3) by simp
    from coloring_inv_partition [OF p(4) this] show ?thesis
      by (simp add: d Inr p(2))
  qed
qed

theorem slots_contiguous_partition_witness:
  "wf_graph example_heap example_graph
    \<and> (case greedyColoring js_compare example_heap example_graph example_students of
            (h', out, r) \<Rightarrow>
              set (map fst (slots r)) = {1..totalSlots r} \<and> distinct (map fst (slots r))
              \<and> slots_partition h' (courses r) (slots r))
    \<and> (case dsaturColoring js_compare example_heap example_graph example_students of
            (h', Inl e) \<Rightarrow> True
          | (h', Inr r) \<Rightarrow>
              set (map fst (slots r)) = {1..totalSlots r} \<and> distinct (map fst (slots r))
              \<and> slots_partition h' (courses r) (slots r))
    \<and> snd (dsaturColoring js_compare example_heap example_graph example_students) \<noteq> Inl TypeError"
proof -
  have a: "wf_graph example_heap example_graph" by code_simp
  have c: "snd (dsaturColoring js_compare example_heap example_graph example_students) \<noteq> Inl TypeError"
    by code_simp
  note t = slots_contiguous_partition [OF a, of js_compare example_students]
  show ?thesis
    by (intro conjI a c t [THEN conjunct1] t [THEN conjunct2])
qed

text \<open>
  Claim C6. The greedy colorer is deterministic: on two well-formed inputs with the same
  course names in the same order, the same conflict sets (the same members, in any
  order of insertion) and the same students, whatever their \<open>slot\<close> and \<open>color\<close> fields
  hold before the call, it returns the same slot map, the same \<open>totalSlots\<close> and
  \<open>totalConflicts\<close>, and gives every course the same slot and the same colour.
\<close>

theorem greedy_deterministic:
  assumes "wf_graph h1 g1" and "wf_graph h2 g2"
    and "map fst g1 = map fst g2" and "same_conflicts h1 g1 h2 g2"
  shows "case greedyColoring lc h1 g1 studs of (h1', out1, r1) \<Rightarrow>
         (case greedyColoring lc h2 g2 studs of (h2', out2, r2) \<Rightarrow>
            slots r1 = slots r2 \<and> totalSlots r1 = totalSlots r2
            \<and> totalConflicts r1 = totalConflicts r2
            \<and> col_of h1' (courses r1) = col_of h2' (courses r2)
            \<and> paint_of h1' (courses r1) = paint_of h2' (courses r2))"
proof -
  obtain h1' out1 r1 where a: "greedyColoring lc h1 g1 studs = (h1', out1, r1)"
    by (cases "greedyColoring lc h1 g1 studs")
  obtain h2' out2 r2 where b: "greedyColoring lc h2 g2 studs = (h2', out2, r2)"
    by (cases "greedyColoring lc h2 g2 studs")
  have "list_all2 same_item (sort_by (item_cmp lc) (map (item h1) (map snd g1)))
      (sort_by (item_cmp lc) (map (item h2) (map snd g2)))"
    by (rule sort_by_same) (rule items_same [OF assms])
  then have "assign_slots (sort_by (item_cmp lc) (map (item h1) (map snd g1))) []
      = assign_slots (sort_by (item_cmp lc) (map (item h2) (map snd g2))) []"
    by (rule assign_slots_same)
  then have sl: "slots r1 = slots r2"
    using greedy_pure(1) [OF a] greedy_pure(1) [OF b] by simp
  have "{(k, b). k \<in> set (map fst g1) \<and> b \<in> set (cf_of h1 g1 k)}
      = {(k, b). k \<in> set (map fst g2) \<and> b \<in> set (cf_of h2 g2 k)}"
    using assms(3,4) by (simp add: same_conflicts_def)
  then have tc: "totalConflicts r1 = totalConflicts r2"
    using greedy_totalConflicts_card [OF assms(1) a] greedy_totalConflicts_card [OF assms(2) b]
    by simp
  from greedy_spec [OF assms(1) _ a, of False] obtain P1 where
    p1: "courses r1 = g1" "totalSlots r1 = length (slots r1)" "set P1 = set (map fst g1)"
      "coloring_inv False (cf_of h1 g1) g1 h1' (slots r1) P1"
    by auto
  from greedy_spec [OF assms(2) _ b, of False] obtain P2 where
    p2: "courses r2 = g2" "totalSlots r2 = length (slots r2)" "set P2 = set (map fst g2)"
      "coloring_inv False (cf_of h2 g2) g2 h2' (slots r2) P2"
    by auto
  have "col_of h1' g1 = col_of h2' g2" "paint_of h1' g1 = paint_of h2' g2"
    using same_slots_same_colors [OF p1(4) [unfolded sl] p1(3) p2(4) p2(3) assms(3)] by simp_all
  then show ?thesis
    by (simp add: a b sl tc p1(1,2) p2(1,2))
qed

theorem greedy_deterministic_witness:
  "wf_graph example_heap example_graph \<and> wf_graph example_reordered example_graph
    \<and> map fst example_graph = map fst example_graph
    \<and> same_conflicts example_heap example_graph example_reordered example_graph
    \<and> (case greedyColoring js_compare example_heap example_graph example_students of
         (h1', out1, r1) \<Rightarrow>
         (case greedyColoring js_compare example_reordered example_graph example_students of
            (h2', out2, r2) \<Rightarrow>
              slots r1 = slots r2 \<and> totalSlots r1 = totalSlots r2
              \<and> totalConflicts r1 = totalConflicts r2
              \<and> col_of h1' (courses r1) = col_of h2' (courses r2)
              \<and> paint_of h1' (courses r1) = paint_of h2' (courses r2)))"
proof -
  have a: "wf_graph example_heap example_graph" by code_simp
  have b: "wf_graph example_reordered example_graph" by code_simp
  have c: "same_conflicts example_heap example_graph example_reordered example_graph"
    unfolding same_conflicts_def
    by (auto simp: cf_of_def example_heap_def example_reordered_def example_graph_def)
  note t = greedy_deterministic [OF a b refl c, of js_compare example_students]
  show ?thesis
    by (intro conjI a b c t refl)
qed

text \<open>
  Claim C5. The DSATUR colorer leaves the caller's store as it was: after the call the
  store begins with the store before the call, so every course of the input graph keeps
  its \<open>slot\<close>, \<open>color\<close> and conflict set, also when the colorer throws; the map of a
  returned result refers only to objects created by the call.
\<close>

theorem dsaturColoring_frame:
  "case dsaturColoring lc h originalCourses studs of
     (h', res) \<Rightarrow>
       take (length h) h' = h \<and>
       (case res of
          Inl e \<Rightarrow> True
        | Inr r \<Rightarrow> list_all (\<lambda>(k, ref). length h \<le> ref \<and> ref < length h') (courses r))"
proof -
  obtain h1 cs where f: "fold copy_course originalCourses (h, []) = (h1, cs)"
    by (cases "fold copy_course originalCourses (h, [])")
  have "fresh_from (length h) h (h, [])"
    by (simp add: fresh_from_def)
  then have "fresh_from (length h) h (h1, cs)"
    using fold_copy_course_fresh [of "length h" h "(h, [])" originalCourses] f by simp
  then have c: "length h \<le> length h1" "take (length h) h1 = h"
    "\<forall>(k, r) \<in> set cs. length h \<le> r \<and> r < length h1"
    by (auto simp: fresh_from_def)
  have inr: "list_all (\<lambda>(k, ref). length h \<le> ref \<and> ref < length h1) cs"
    using c(3) by (auto simp: list_all_iff)
  have fr: "frame_ok (length h) h (length h1) (h1, [])"
    using c(2) by (simp add: frame_ok_def)
  have pl: "case forEach (place_course cs) ca (h1, []) of
      Inl (e, s') \<Rightarrow> frame_ok (length h) h (length h1) s'
    | Inr s' \<Rightarrow> frame_ok (length h) h (length h1) s'" for ca
  proof (rule forEach_state [where P = "frame_ok (length h) h (length h1)"])
    show "frame_ok (length h) h (length h1) (h1, [])" by (rule fr)
  next
    fix x t t'
    assume "frame_ok (length h) h (length h1) t" and "place_course cs x t = Inr t'"
    then show "frame_ok (length h) h (length h1) t'"
      using c(3) place_course_frame [of "length h" h "length h1" t cs x t'] by auto
  qed
  show ?thesis
  proof (cases "length (map fst cs) = 0")
    case True
    then show ?thesis using c(2) by (simp add: dsaturColoring_def f)
  next
    case False
    show ?thesis
    proof (cases "forEach (init_maps h1 cs) (map fst cs) ([], [], [])")
      case (Inl a)
      then show ?thesis using False c(2)
        by (simp add: dsaturColoring_def f split: prod.splits)
    next
      case (Inr m)
      obtain ca0 sat0 deg where m: "m = (ca0, sat0, deg)" by (cases m)
      show ?thesis
      proof (cases "dsatur_loop lc h1 cs deg (map fst cs) (ca0, sat0)")
        case (Inl e)
        then show ?thesis using False c(2) Inr m
          by (simp add: dsaturColoring_def f)
      next
        case ca: (Inr ca)
        show ?thesis
        proof (cases "forEach (place_course cs) ca (h1, [])")
          case (Inl a)
          obtain e h2 sl where a: "a = (e, h2, sl)" by (cases a)
          have "frame_ok (length h) h (length h1) (h2, sl)"
            using pl [of ca] Inl a by simp
          then show ?thesis using False Inr m ca Inl a
            by (simp add: dsaturColoring_def f frame_ok_def)
        next
          case (Inr b)
          obtain h2 sl where b: "b = (h2, sl)" by (cases b)
          have "frame_ok (length h) h (length h1) (h2, sl)"
            using pl [of ca] Inr b by simp
          then have "length h2 = length h1" "take (length h) h2 = h"
            by (simp_all add: frame_ok_def)
          then show ?thesis using False \<open>forEach (init_maps h1 cs) (map fst cs) ([], [], []) = Inr m\<close> m ca Inr b inr
            by (simp add: dsaturColoring_def f Let_def)
        qed
      qed
    qed
  qed
qed

theorem dsaturColoring_frame_witness:
  "take (length example_colored)
      (fst (dsaturColoring js_compare example_colored example_graph example_students))
    = example_colored
   \<and> (case dsaturColoring js_compare example_colored example_graph example_students of
     (h', res) \<Rightarrow>
       take (length example_colored) h' = example_colored \<and>
       (case res of
          Inl e \<Rightarrow> True
        | Inr r \<Rightarrow> list_all (\<lambda>(k, ref). length example_colored \<le> ref \<and> ref < length h') (courses r)))
   \<and> snd (dsaturColoring js_compare example_colored example_graph example_students) \<noteq> Inl TypeError"
proof -
  have c: "snd (dsaturColoring js_compare example_colored example_graph example_students) \<noteq> Inl TypeError"
    by code_simp
  note t = dsaturColoring_frame [where lc = js_compare and h = example_colored
      and originalCourses = example_graph and studs = example_students]
  have "take (length example_colored)
      (fst (dsaturColoring js_compare example_colored example_graph example_students))
    = example_colored"
    using t by (simp add: case_prod_beta)
  then show ?thesis
    by (intro conjI c t)
qed

end
